theory Spec2Isabelle
  imports Main "HOL-Library.Word"
begin

section \<open>Players, cells, turns and boards\<close>

text \<open>
  \<^verbatim>\<open>type Player uint8\<close> with the constants \<^verbatim>\<open>PlayerOne = 1\<close> and \<^verbatim>\<open>PlayerTwo = 2\<close>;
  zero denotes the absent player.  \<^verbatim>\<open>Cell\<close> holds two \<^verbatim>\<open>uint8\<close> coordinates, a
  \<^verbatim>\<open>Turn\<close> a cell and a player, and a \<^verbatim>\<open>Board\<close> is a slice of rows of players.
  The type \<open>board\<close> is what a \<^verbatim>\<open>Board\<close> holds when it is read, row by row; the storage
  that a \<^verbatim>\<open>Board\<close> refers to is modelled below (\<open>boardRef\<close>).
\<close>

type_synonym player = "8 word"

definition PlayerOne :: player where
  "PlayerOne = 1"

definition PlayerTwo :: player where
  "PlayerTwo = 2"

definition IsValid :: "player \<Rightarrow> bool" where
  "IsValid p \<longleftrightarrow> p = PlayerOne \<or> p = PlayerTwo"

definition IsValidOrZero :: "player \<Rightarrow> bool" where
  "IsValidOrZero p \<longleftrightarrow> p = 0 \<or> IsValid p"

definition Next :: "player \<Rightarrow> player" where
  "Next p = (if p = PlayerOne then PlayerTwo else if p = PlayerTwo then PlayerOne else p)"

datatype state = StateAwaitingTurn | StateDraw | StateWon

record cell =
  Column :: "8 word"
  Row :: "8 word"

record turn =
  Cell :: cell
  Player :: player

type_synonym board = "player list list"

text \<open>
  \<^verbatim>\<open>Board.Copy\<close>: every row of the copy is allocated with the length of the board
  (\<^verbatim>\<open>make([]Player, l)\<close>) and \<^verbatim>\<open>copy\<close> transfers as many marks as fit; the nil
  board (the empty list here) is copied to nil.
\<close>

definition Copy :: "board \<Rightarrow> board" where
  "Copy b = (let l = length b in map (\<lambda>cols. take l cols @ replicate (l - length cols) 0) b)"

text \<open>\<^verbatim>\<open>Board.FindEmpty\<close>: row-major scan, the indices cast to \<^verbatim>\<open>uint8\<close>.\<close>

definition FindEmpty :: "board \<Rightarrow> cell list" where
  "FindEmpty b =
     concat (map (\<lambda>(row, cols).
        map (\<lambda>(col, p). \<lparr>Column = of_nat col, Row = of_nat row\<rparr>)
            (filter (\<lambda>(col, p). p = 0) (enumerate 0 cols)))
       (enumerate 0 b))"

text \<open>
  \<^verbatim>\<open>Cells.Random\<close>: the empty cell for no cells, else the element at
  \<^verbatim>\<open>rand.Intn(len(cs))\<close>.  The draw of the random source is the parameter \<open>r\<close>,
  reduced to the range of \<^verbatim>\<open>Intn\<close>.
\<close>

definition Random :: "cell list \<Rightarrow> nat \<Rightarrow> cell" where
  "Random cs r = (if cs = [] then \<lparr>Column = 0, Row = 0\<rparr> else cs ! (r mod length cs))"

text \<open>
  The assignment \<^verbatim>\<open>board[cell.Row][cell.Column] = p\<close> on a board that shares no
  storage: the bots perform it on the result of \<^verbatim>\<open>Copy\<close>, whose rows are new arrays,
  and only on cells they have enumerated, which lie inside the board.
\<close>

definition setCell :: "board \<Rightarrow> cell \<Rightarrow> player \<Rightarrow> board" where
  "setCell b c p = b[unat (Row c) := (b ! unat (Row c))[unat (Column c) := p]]"

definition getCell :: "board \<Rightarrow> cell \<Rightarrow> player" where
  "getCell b c = b ! unat (Row c) ! unat (Column c)"

section \<open>Boards and their storage\<close>

text \<open>
  A Go slice is a view of an array, and a \<^verbatim>\<open>Board\<close>, a slice of row slices, is a view
  of the arrays in which its rows lie.  Two rows of a board may lie in the same array,
  wholly or in part, and a mark written through one of them is then read through the
  other.  A board value is therefore modelled with the storage it refers to: the player
  stored at each address, and for each row the address of its first element and its
  length.  Reading the board (\<open>deref\<close>) gives the rows of players that the engine's
  scans see.

  The assignment \<^verbatim>\<open>board[cell.Row][cell.Column] = p\<close> (\<open>assign\<close>) writes the one
  storage cell at the address of that column of that row.  Go panics when the indices
  are out of range; the engine assigns only after \<^verbatim>\<open>validateBounds\<close>, and here an
  assignment out of range leaves the board as it is.
\<close>

type_synonym slice = "nat \<times> nat"

record boardRef =
  storage :: "nat \<Rightarrow> player"
  rowRefs :: "slice list"

definition readRow :: "(nat \<Rightarrow> player) \<Rightarrow> slice \<Rightarrow> player list" where
  "readRow s r = map (\<lambda>i. s (fst r + i)) [0..<snd r]"

definition deref :: "boardRef \<Rightarrow> board" where
  "deref bv = map (readRow (storage bv)) (rowRefs bv)"

definition assign :: "boardRef \<Rightarrow> cell \<Rightarrow> player \<Rightarrow> boardRef" where
  "assign bv c p =
     (let r = unat (Row c); k = unat (Column c) in
      if r < length (rowRefs bv) \<and> k < snd (rowRefs bv ! r)
        then bv\<lparr>storage := (storage bv)(fst (rowRefs bv ! r) + k := p)\<rparr>
      else bv)"

text \<open>
  A board value that holds the given rows in arrays of its own, laid out one after the
  other from address 0 (\<open>alloc\<close>): what \<^verbatim>\<open>make\<close> and a composite literal with a literal
  for each row produce.  \<^verbatim>\<open>newBoard\<close> makes \<open>n\<close> rows of \<open>n\<close> absent players, and the
  nil board has no rows.
\<close>

fun layout :: "nat \<Rightarrow> board \<Rightarrow> slice list" where
  "layout a [] = []"
| "layout a (cols # b) = (a, length cols) # layout (a + length cols) b"

definition alloc :: "board \<Rightarrow> boardRef" where
  "alloc b =
     \<lparr>storage = (\<lambda>a. if a < length (concat b) then concat b ! a else 0),
      rowRefs = layout 0 b\<rparr>"

definition newBoard :: "8 word \<Rightarrow> boardRef" where
  "newBoard n = alloc (replicate (unat n) (replicate (unat n) 0))"

definition nilBoard :: boardRef where
  "nilBoard = \<lparr>storage = (\<lambda>a. 0), rowRefs = []\<rparr>"

text \<open>
  The rows of a board value lie apart when no two of them have a storage cell in
  common.
\<close>

definition apart :: "slice \<Rightarrow> slice \<Rightarrow> bool" where
  "apart r q \<longleftrightarrow> fst r + snd r \<le> fst q \<or> fst q + snd q \<le> fst r"

definition ownRows :: "boardRef \<Rightarrow> bool" where
  "ownRows bv \<longleftrightarrow> sorted_wrt apart (rowRefs bv)"

section \<open>Errors\<close>

datatype turn_reason = HumanForBot | WrongPlayer | CellTaken

datatype board_reason =
    TooFewRows
  | TooManyRows
  | BadRowLength nat
  | UnknownPlayer nat nat player
  | UnfairAdvantage player

datatype size_reason = SizeTooSmall | SizeTooLarge

text \<open>
  The sentinel errors of the package with what the formatting helpers wrap into them.
  \<open>ErrBoard\<close> and \<open>ErrSize\<close> stand for the plain \<^verbatim>\<open>fmt.Errorf\<close> values that
  \<^verbatim>\<open>Board.check\<close> and \<^verbatim>\<open>WithSize\<close> hand to \<^verbatim>\<open>fmtInvalidOptionErr\<close>.
\<close>

datatype error =
    ErrBot error
  | ErrConditionInvalid nat player
  | ErrGameOver
  | ErrOptionInvalid string error
  | ErrOutOfBoundsRow
  | ErrOutOfBoundsCol
  | ErrPlayerNotFound player
  | ErrTurnInvalid turn_reason
  | ErrBoard board_reason
  | ErrSize size_reason

datatype category =
    BotFailure | InvalidCondition | GameOver | InvalidOption | OutOfBounds
  | PlayerNotFound | InvalidTurn | Plain

text \<open>The sentinel an error value wraps first (what \<^verbatim>\<open>errors.Is\<close> reports).\<close>

fun category_of :: "error \<Rightarrow> category" where
  "category_of (ErrBot e) = BotFailure"
| "category_of (ErrConditionInvalid i p) = InvalidCondition"
| "category_of ErrGameOver = GameOver"
| "category_of (ErrOptionInvalid n e) = InvalidOption"
| "category_of ErrOutOfBoundsRow = OutOfBounds"
| "category_of ErrOutOfBoundsCol = OutOfBounds"
| "category_of (ErrPlayerNotFound p) = PlayerNotFound"
| "category_of (ErrTurnInvalid r) = InvalidTurn"
| "category_of (ErrBoard r) = Plain"
| "category_of (ErrSize r) = Plain"

section \<open>Board validation\<close>

text \<open>
  \<^verbatim>\<open>Board.check\<close>.  The inner loop over the cells of one row, the outer loop over the
  rows; \<^verbatim>\<open>turnCounter\<close> is a \<^verbatim>\<open>map[Player]uint16\<close>, whose missing keys read as zero.
\<close>

fun check_cols :: "nat \<Rightarrow> nat \<Rightarrow> player list \<Rightarrow> turn list \<Rightarrow> (player \<Rightarrow> 16 word)
    \<Rightarrow> board_reason + (turn list \<times> (player \<Rightarrow> 16 word))" where
  "check_cols row col [] turns tc = Inr (turns, tc)"
| "check_cols row col (p # ps) turns tc =
     (if p = 0 then check_cols row (Suc col) ps turns tc
      else if IsValid p then
        check_cols row (Suc col) ps
          (turns @ [\<lparr>Cell = \<lparr>Column = of_nat col, Row = of_nat row\<rparr>, Player = p\<rparr>])
          (tc(p := tc p + 1))
      else Inl (UnknownPlayer row col p))"

fun check_rows :: "8 word \<Rightarrow> nat \<Rightarrow> board \<Rightarrow> turn list \<Rightarrow> (player \<Rightarrow> 16 word)
    \<Rightarrow> board_reason + (turn list \<times> (player \<Rightarrow> 16 word))" where
  "check_rows sz row [] turns tc = Inr (turns, tc)"
| "check_rows sz row (cols # rest) turns tc =
     (if length cols \<noteq> unat sz then Inl (BadRowLength row)
      else case check_cols row 0 cols turns tc of
             Inl e \<Rightarrow> Inl e
           | Inr (turns', tc') \<Rightarrow> check_rows sz (Suc row) rest turns' tc')"

text \<open>The result on success is (starter, size, maxTurns, turns).\<close>

definition check :: "board \<Rightarrow> board_reason + (player \<times> 8 word \<times> int \<times> turn list)" where
  "check b =
     (let l = length b in
      if l < 3 then Inl TooFewRows
      else if l > 255 then Inl TooManyRows
      else
        let maxTurns = int l * int l; sz = (of_nat l :: 8 word) in
        case check_rows sz 0 b [] (\<lambda>_. 0) of
          Inl e \<Rightarrow> Inl e
        | Inr (turns, tc) \<Rightarrow>
            let diffTurns = int (unat (tc PlayerOne)) - int (unat (tc PlayerTwo)) in
            if diffTurns = 1 then Inr (PlayerTwo, sz, maxTurns, turns)
            else if diffTurns > 1 then Inl (UnfairAdvantage PlayerOne)
            else if diffTurns = -1 then Inr (PlayerOne, sz, maxTurns, turns)
            else if diffTurns < -1 then Inl (UnfairAdvantage PlayerTwo)
            else Inr (0, sz, maxTurns, turns))"

section \<open>Winning conditions\<close>

text \<open>
  The \<^verbatim>\<open>Condition\<close> interface: a global scan and an incremental check.  A condition
  is required not to mutate the board, so both are functions of it.
\<close>

record condition =
  FindWinner :: "board \<Rightarrow> player"
  IsWinningTurn :: "board \<Rightarrow> turn \<Rightarrow> bool"

type_synonym conditions = "condition list"

text \<open>\<^verbatim>\<open>Conditions.FindWinner\<close>, the index of the condition carried along.\<close>

fun FindWinner_from :: "nat \<Rightarrow> conditions \<Rightarrow> board \<Rightarrow> error + player" where
  "FindWinner_from i [] b = Inr 0"
| "FindWinner_from i (c # cs) b =
     (let p = FindWinner c b in
      if \<not> IsValidOrZero p then Inl (ErrConditionInvalid i p)
      else if p > 0 then Inr p
      else FindWinner_from (Suc i) cs b)"

definition Conditions_FindWinner :: "conditions \<Rightarrow> board \<Rightarrow> error + player" where
  "Conditions_FindWinner cs b = FindWinner_from 0 cs b"

fun Conditions_IsWinningTurn :: "conditions \<Rightarrow> board \<Rightarrow> turn \<Rightarrow> bool" where
  "Conditions_IsWinningTurn [] b t = False"
| "Conditions_IsWinningTurn (c # cs) b t =
     (if IsWinningTurn c b t then True else Conditions_IsWinningTurn cs b t)"

text \<open>
  The line scan shared by \<^verbatim>\<open>findWinnerFromRow\<close>, \<^verbatim>\<open>findWinnerFromCol\<close>,
  \<^verbatim>\<open>findWinnerFromLeft\<close> and \<^verbatim>\<open>findWinnerFromRight\<close>: the loop body is the same
  in the four, the named result \<^verbatim>\<open>player\<close> starting at zero.
\<close>

fun scanLine :: "player \<Rightarrow> player list \<Rightarrow> player" where
  "scanLine pl [] = pl"
| "scanLine pl (current # rest) =
     (if current = 0 then 0
      else if pl = 0 then scanLine current rest
      else if pl \<noteq> current then 0
      else scanLine pl rest)"

text \<open>The loops that return the first positive winner of a sequence of lines.\<close>

fun firstWinner :: "player list \<Rightarrow> player" where
  "firstWinner [] = 0"
| "firstWinner (w # ws) = (if w > 0 then w else firstWinner ws)"

definition findWinnerFromRow :: "player list \<Rightarrow> player" where
  "findWinnerFromRow cols = scanLine 0 cols"

definition findWinnerFromCol :: "board \<Rightarrow> 8 word \<Rightarrow> player" where
  "findWinnerFromCol b col = scanLine 0 (map (\<lambda>cols. cols ! unat col) b)"

definition findWinnerFromLeft :: "board \<Rightarrow> player" where
  "findWinnerFromLeft b = scanLine 0 (map (\<lambda>(i, cols). cols ! i) (enumerate 0 b))"

definition findWinnerFromRight :: "board \<Rightarrow> player" where
  "findWinnerFromRight b =
     scanLine 0 (map (\<lambda>(i, cols). cols ! (length b - i - 1)) (enumerate 0 b))"

definition horizontal_FindWinner :: "board \<Rightarrow> player" where
  "horizontal_FindWinner b = firstWinner (map findWinnerFromRow b)"

definition horizontal_IsWinningTurn :: "board \<Rightarrow> turn \<Rightarrow> bool" where
  "horizontal_IsWinningTurn b t =
     list_all (\<lambda>current. current = Player t) (b ! unat (Row (Cell t)))"

definition vertical_FindWinner :: "board \<Rightarrow> player" where
  "vertical_FindWinner b =
     firstWinner (map (\<lambda>i. findWinnerFromCol b (of_nat i)) [0..<length b])"

definition vertical_IsWinningTurn :: "board \<Rightarrow> turn \<Rightarrow> bool" where
  "vertical_IsWinningTurn b t =
     list_all (\<lambda>cols. cols ! unat (Column (Cell t)) = Player t) b"

definition isWinningTurnFromLeft :: "board \<Rightarrow> turn \<Rightarrow> bool" where
  "isWinningTurnFromLeft b t =
     list_all (\<lambda>(i, cols). cols ! i = Player t) (enumerate 0 b)"

definition isWinningTurnFromRight :: "board \<Rightarrow> turn \<Rightarrow> bool" where
  "isWinningTurnFromRight b t =
     list_all (\<lambda>(i, cols). cols ! (length b - i - 1) = Player t) (enumerate 0 b)"

definition diagonal_FindWinner :: "board \<Rightarrow> player" where
  "diagonal_FindWinner b =
     (if findWinnerFromLeft b > 0 then findWinnerFromLeft b
      else if findWinnerFromRight b > 0 then findWinnerFromRight b
      else 0)"

text \<open>The anti-diagonal test is computed in \<^verbatim>\<open>uint8\<close>, as the source does.\<close>

definition diagonal_IsWinningTurn :: "board \<Rightarrow> turn \<Rightarrow> bool" where
  "diagonal_IsWinningTurn b t =
     (if Row (Cell t) = Column (Cell t) \<and> isWinningTurnFromLeft b t then True
      else if Row (Cell t) = (of_nat (length b) :: 8 word) - Column (Cell t) - 1
              \<and> isWinningTurnFromRight b t then True
      else False)"

definition horizontalCondition :: condition where
  "horizontalCondition =
     \<lparr>FindWinner = horizontal_FindWinner, IsWinningTurn = horizontal_IsWinningTurn\<rparr>"

definition verticalCondition :: condition where
  "verticalCondition =
     \<lparr>FindWinner = vertical_FindWinner, IsWinningTurn = vertical_IsWinningTurn\<rparr>"

definition diagonalCondition :: condition where
  "diagonalCondition =
     \<lparr>FindWinner = diagonal_FindWinner, IsWinningTurn = diagonal_IsWinningTurn\<rparr>"

definition standardConditions :: conditions where
  "standardConditions = [horizontalCondition, verticalCondition, diagonalCondition]"

section \<open>The game\<close>

text \<open>
  The \<^verbatim>\<open>Game\<close> interface is the read access that conditions and bots have to a
  game: \<open>game_core\<close> holds what it exposes, and the \<^verbatim>\<open>game\<close> struct extends it by
  the optional bot.  The field \<^verbatim>\<open>board\<close> of the struct is the board value \<open>gboard\<close>,
  with the storage it refers to; \<open>board g\<close> is that board as the engine, the
  conditions and the bots read it.  The storage of the game after a call is the storage
  as the call leaves it, for the game and for every other holder of slices of it (the
  caller of \<^verbatim>\<open>WithBoard\<close>, a second game started from the same board).  The nil board
  of a draft has no rows (a board accepted by \<^verbatim>\<open>WithBoard\<close> has at least three).
\<close>

record game_core =
  gboard :: boardRef
  conditions :: conditions
  maxTurns :: int
  player :: player
  size_g :: "8 word"
  state :: state
  turns :: "turn list"

text \<open>
  The built-in bots and a caller-supplied one, given by its player and its
  \<^verbatim>\<open>Turn\<close> method.
\<close>

datatype bot =
    EasyBot player
  | NormalBot player
  | HardBot player player
  | ImpossibleBot player
  | CustomBot player "board \<Rightarrow> game_core \<Rightarrow> error + cell"

text \<open>\<^verbatim>\<open>HardBot opponent player\<close>: the two fields of \<^verbatim>\<open>hardBot\<close>.\<close>

fun bot_Player :: "bot \<Rightarrow> player" where
  "bot_Player (EasyBot p) = p"
| "bot_Player (NormalBot p) = p"
| "bot_Player (HardBot opp p) = p"
| "bot_Player (ImpossibleBot p) = p"
| "bot_Player (CustomBot p f) = p"

definition NewEasyBot :: "player \<Rightarrow> bot" where
  "NewEasyBot p = EasyBot p"

definition NewNormalBot :: "player \<Rightarrow> bot" where
  "NewNormalBot p = NormalBot p"

definition NewHardBot :: "player \<Rightarrow> bot" where
  "NewHardBot p = HardBot (Next p) p"

definition NewImpossibleBot :: "player \<Rightarrow> bot" where
  "NewImpossibleBot p = ImpossibleBot p"

record game = game_core +
  bot :: "bot option"

definition board :: "'a game_core_scheme \<Rightarrow> board" where
  "board g = deref (gboard g)"

definition LastTurn :: "'a game_core_scheme \<Rightarrow> turn \<times> bool" where
  "LastTurn g =
     (if turns g = [] then (\<lparr>Cell = \<lparr>Column = 0, Row = 0\<rparr>, Player = 0\<rparr>, False)
      else (last (turns g), True))"

definition RemainingTurns :: "'a game_core_scheme \<Rightarrow> int" where
  "RemainingTurns g = maxTurns g - int (length (turns g))"

definition IsBotTurn :: "game \<Rightarrow> bool" where
  "IsBotTurn g \<longleftrightarrow>
     state g = StateAwaitingTurn \<and> bot g \<noteq> None \<and> bot_Player (the (bot g)) = player g"

definition validateBounds :: "game \<Rightarrow> cell \<Rightarrow> error option" where
  "validateBounds g c =
     (if Row c \<ge> size_g g then Some ErrOutOfBoundsRow
      else if Column c \<ge> size_g g then Some ErrOutOfBoundsCol
      else None)"

definition validateTurn :: "game \<Rightarrow> turn \<Rightarrow> bool \<Rightarrow> error option" where
  "validateTurn g t allowBotTurn =
     (if state g \<noteq> StateAwaitingTurn then Some ErrGameOver
      else if \<not> IsValid (Player t) then Some (ErrPlayerNotFound (Player t))
      else if bot g \<noteq> None \<and> bot_Player (the (bot g)) = Player t \<and> \<not> allowBotTurn
        then Some (ErrTurnInvalid HumanForBot)
      else if Player t \<noteq> player g then Some (ErrTurnInvalid WrongPlayer)
      else if getCell (board g) (Cell t) > 0 then Some (ErrTurnInvalid CellTaken)
      else None)"

text \<open>
  \<^verbatim>\<open>game.play\<close> returns the state, the player and the error, and mutates the game:
  the result is the game after the call with the three values returned.  The mark is
  assigned through \<^verbatim>\<open>g.board\<close>, into the storage that the board refers to.
\<close>

definition play :: "game \<Rightarrow> turn \<Rightarrow> bool \<Rightarrow> game \<times> state \<times> player \<times> error option" where
  "play g t allowBotTurn =
     (case validateBounds g (Cell t) of
        Some err \<Rightarrow> (g, state g, player g, Some err)
      | None \<Rightarrow>
     (case validateTurn g t allowBotTurn of
        Some err \<Rightarrow> (g, state g, player g, Some err)
      | None \<Rightarrow>
          let g1 = g\<lparr>gboard := assign (gboard g) (Cell t) (Player t)\<rparr>;
              g2 = g1\<lparr>turns := turns g1 @ [t]\<rparr>;
              g3 = (if Conditions_IsWinningTurn (conditions g2) (board g2) t
                      then g2\<lparr>state := StateWon\<rparr>
                    else if int (length (turns g2)) \<ge> maxTurns g2
                      then g2\<lparr>player := 0, state := StateDraw\<rparr>
                    else g2\<lparr>player := Next (Player t)\<rparr>)
          in (g3, state g3, player g3, None)))"

definition Play :: "game \<Rightarrow> turn \<Rightarrow> game \<times> state \<times> player \<times> error option" where
  "Play g t = play g t False"

section \<open>Bots\<close>

text \<open>
  The handle a bot receives is the game itself, read through the \<^verbatim>\<open>Game\<close>
  interface.  The board a bot receives is the game's own (\<^verbatim>\<open>g.board\<close>, not a copy);
  the built-in bots read it and write to copies only, and a caller's bot is a function
  of what it reads.
\<close>

definition handle :: "game \<Rightarrow> game_core" where
  "handle g =
     \<lparr>gboard = gboard g, conditions = conditions g, maxTurns = maxTurns g, player = player g,
      size_g = size_g g, state = state g, turns = turns g\<rparr>"

definition easyBot_Turn :: "board \<Rightarrow> nat \<Rightarrow> cell" where
  "easyBot_Turn b r = Random (FindEmpty b) r"

text \<open>\<^verbatim>\<open>normalBot.Turn\<close>: the loop returns at the first winning candidate.\<close>

fun normal_loop :: "conditions \<Rightarrow> board \<Rightarrow> player \<Rightarrow> cell list \<Rightarrow> cell option" where
  "normal_loop cs b p [] = None"
| "normal_loop cs b p (candidate # rest) =
     (let nextBoard = setCell (Copy b) candidate p in
      if Conditions_IsWinningTurn cs nextBoard \<lparr>Cell = candidate, Player = p\<rparr>
        then Some candidate
      else normal_loop cs b p rest)"

definition normalBot_Turn :: "player \<Rightarrow> board \<Rightarrow> 'a game_core_scheme \<Rightarrow> nat \<Rightarrow> cell" where
  "normalBot_Turn p b g r =
     (let candidates = FindEmpty b in
      case normal_loop (conditions g) b p candidates of
        Some c \<Rightarrow> c
      | None \<Rightarrow> Random candidates r)"

text \<open>
  \<^verbatim>\<open>hardBot.Turn\<close>.  The inner loop over the opponent's replies updates
  \<^verbatim>\<open>oppWinner\<close>; the outer loop either returns a candidate at once (\<open>Inl\<close>) or ends
  with the last value of \<^verbatim>\<open>oppWinner\<close> (\<open>Inr\<close>).
\<close>

fun hard_oppLoop :: "conditions \<Rightarrow> board \<Rightarrow> player \<Rightarrow> cell list \<Rightarrow> cell option \<Rightarrow> cell option" where
  "hard_oppLoop cs nextBoard opp [] oppWinner = oppWinner"
| "hard_oppLoop cs nextBoard opp (oppCandidate # rest) oppWinner =
     (let oppBoard = setCell (Copy nextBoard) oppCandidate opp in
      if Conditions_IsWinningTurn cs oppBoard \<lparr>Cell = oppCandidate, Player = opp\<rparr>
        then hard_oppLoop cs nextBoard opp rest (Some oppCandidate)
      else hard_oppLoop cs nextBoard opp rest oppWinner)"

fun hard_loop :: "conditions \<Rightarrow> board \<Rightarrow> player \<Rightarrow> player \<Rightarrow> cell list \<Rightarrow> cell option
    \<Rightarrow> cell + cell option" where
  "hard_loop cs b opp p [] oppWinner = Inr oppWinner"
| "hard_loop cs b opp p (candidate # rest) oppWinner =
     (let nextBoard = setCell (Copy b) candidate p in
      if Conditions_IsWinningTurn cs nextBoard \<lparr>Cell = candidate, Player = p\<rparr>
        then Inl candidate
      else hard_loop cs b opp p rest
             (hard_oppLoop cs nextBoard opp (FindEmpty nextBoard) oppWinner))"

definition hardBot_Turn :: "player \<Rightarrow> player \<Rightarrow> board \<Rightarrow> 'a game_core_scheme \<Rightarrow> nat \<Rightarrow> cell" where
  "hardBot_Turn opp p b g r =
     (let candidates = FindEmpty b in
      case hard_loop (conditions g) b opp p candidates None of
        Inl c \<Rightarrow> c
      | Inr (Some w) \<Rightarrow> w
      | Inr None \<Rightarrow> Random candidates r)"

record impossibleChoice =
  ch_cell :: cell
  ch_depth :: int
  ch_value :: int

text \<open>
  The first loop of \<^verbatim>\<open>minimax\<close> runs over the candidates in order: it returns at the
  first child that fails, and otherwise appends the child's choice with its cell
  replaced by the candidate.  A child is \<open>None\<close> when its search does not return.
\<close>

fun collect :: "(cell \<times> (error + impossibleChoice) option) list \<Rightarrow> impossibleChoice list
    \<Rightarrow> (error + impossibleChoice list) option" where
  "collect [] choices = Some (Inr choices)"
| "collect ((candidate, None) # rest) choices = None"
| "collect ((candidate, Some (Inl err)) # rest) choices = Some (Inl err)"
| "collect ((candidate, Some (Inr choice)) # rest) choices =
     collect rest (choices @ [choice\<lparr>ch_cell := candidate\<rparr>])"

text \<open>The second loop: the running \<^verbatim>\<open>minChoice\<close> and \<^verbatim>\<open>maxChoice\<close>.\<close>

fun selectLoop :: "bool \<Rightarrow> impossibleChoice list \<Rightarrow> impossibleChoice \<Rightarrow> impossibleChoice
    \<Rightarrow> impossibleChoice \<times> impossibleChoice" where
  "selectLoop mx [] minChoice maxChoice = (minChoice, maxChoice)"
| "selectLoop mx (choice # rest) minChoice maxChoice =
     (if mx \<and> ch_value choice > ch_value maxChoice then selectLoop mx rest minChoice choice
      else if \<not> mx \<and> ch_value choice < ch_value minChoice then selectLoop mx rest choice maxChoice
      else selectLoop mx rest minChoice maxChoice)"

text \<open>
  \<^verbatim>\<open>impossibleBot.minimax\<close>.  The source recurses once per empty cell and has no
  other bound; the first argument bounds the depth of the recursion, and \<open>None\<close> is
  the search that has not returned within it.  The sentinel values
  \<^verbatim>\<open>int(math.Pow(float64(maxTurns+1), 2))\<close> are exact squares (the turn ceiling of a
  game is at most \<open>255\<^sup>2\<close>).
\<close>

fun minimax :: "nat \<Rightarrow> player \<Rightarrow> board \<Rightarrow> 'a game_core_scheme \<Rightarrow> turn \<Rightarrow> bool \<Rightarrow> player \<Rightarrow> int
    \<Rightarrow> (error + impossibleChoice) option" where
  "minimax 0 bp b g lastTurn mx pl depth = None"
| "minimax (Suc n) bp b g lastTurn mx pl depth =
     (let candidates = FindEmpty b in
      case Conditions_FindWinner (conditions g) b of
        Inl err \<Rightarrow> Some (Inl err)
      | Inr winner \<Rightarrow>
          if winner = bp then
            Some (Inr \<lparr>ch_cell = Cell lastTurn, ch_depth = depth,
                       ch_value = (maxTurns g + 1) - depth\<rparr>)
          else if winner = Next bp then
            Some (Inr \<lparr>ch_cell = Cell lastTurn, ch_depth = depth,
                       ch_value = - (maxTurns g + 1) + depth\<rparr>)
          else if length candidates = 0 then
            Some (Inr \<lparr>ch_cell = Cell lastTurn, ch_depth = depth, ch_value = 0\<rparr>)
          else
            case collect
                   (map (\<lambda>candidate.
                      (candidate,
                       minimax n bp (setCell (Copy b) candidate pl) g
                         \<lparr>Cell = candidate, Player = pl\<rparr> (\<not> mx) (Next pl) (depth + 1)))
                    candidates) [] of
              None \<Rightarrow> None
            | Some (Inl err) \<Rightarrow> Some (Inl err)
            | Some (Inr choices) \<Rightarrow>
                let minChoice = \<lparr>ch_cell = \<lparr>Column = 0, Row = 0\<rparr>, ch_depth = depth,
                                 ch_value = (maxTurns g + 1) ^ 2\<rparr>;
                    maxChoice = \<lparr>ch_cell = \<lparr>Column = 0, Row = 0\<rparr>, ch_depth = depth,
                                 ch_value = - ((maxTurns g + 1) ^ 2)\<rparr>;
                    (minChoice', maxChoice') = selectLoop mx choices minChoice maxChoice
                in if mx then Some (Inr maxChoice') else Some (Inr minChoice'))"

text \<open>
  \<^verbatim>\<open>impossibleBot.Turn\<close>.  The recursion of the search is given one level per empty
  cell of the board and one for the leaves, which is what it uses on a game's board.
\<close>

definition impossibleBot_Turn :: "player \<Rightarrow> board \<Rightarrow> 'a game_core_scheme \<Rightarrow> (error + cell) option" where
  "impossibleBot_Turn bp b g =
     (case minimax (Suc (length (FindEmpty b))) bp b g (fst (LastTurn g)) True bp 0 of
        None \<Rightarrow> None
      | Some (Inl err) \<Rightarrow> Some (Inl err)
      | Some (Inr choice) \<Rightarrow> Some (Inr (ch_cell choice)))"

text \<open>The dynamic dispatch of \<^verbatim>\<open>Bot.Turn\<close>; \<open>r\<close> is the draw of the random source.\<close>

fun bot_Turn :: "bot \<Rightarrow> board \<Rightarrow> game_core \<Rightarrow> nat \<Rightarrow> (error + cell) option" where
  "bot_Turn (EasyBot p) b g r = Some (Inr (easyBot_Turn b r))"
| "bot_Turn (NormalBot p) b g r = Some (Inr (normalBot_Turn p b g r))"
| "bot_Turn (HardBot opp p) b g r = Some (Inr (hardBot_Turn opp p b g r))"
| "bot_Turn (ImpossibleBot p) b g r = impossibleBot_Turn p b g"
| "bot_Turn (CustomBot p f) b g r = Some (f b g)"

text \<open>\<^verbatim>\<open>game.AllowBotTurn\<close>; \<open>None\<close> when the bot's search does not return.\<close>

definition AllowBotTurn :: "game \<Rightarrow> nat \<Rightarrow> (game \<times> state \<times> player \<times> error option) option" where
  "AllowBotTurn g r =
     (if \<not> IsBotTurn g then Some (g, state g, player g, None)
      else case bot_Turn (the (bot g)) (board g) (handle g) r of
             None \<Rightarrow> None
           | Some (Inl err) \<Rightarrow> Some (g, state g, player g, Some (ErrBot err))
           | Some (Inr c) \<Rightarrow>
               (case play g \<lparr>Cell = c, Player = player g\<rparr> True of
                  (g', _, _, err) \<Rightarrow> Some (g', state g', player g', map_option ErrBot err)))"

section \<open>Construction\<close>

text \<open>
  The options of \<^verbatim>\<open>Start\<close>.  The two random options carry the draw of the random
  source, and \<^verbatim>\<open>WithBoard\<close> the caller's board with the storage it refers to.
\<close>

datatype game_option =
    WithBoard boardRef
  | WithBot bot
  | WithCondition condition
  | WithConditions conditions
  | WithEasyBot player
  | WithHardBot player
  | WithImpossibleBot player
  | WithNormalBot player
  | WithPack "game_option list"
  | WithRandomSize nat
  | WithRandomStarterPlayer nat
  | WithSize "8 word"
  | WithStarterPlayer player

definition MinSize :: "8 word" where
  "MinSize = 3"

definition MaxSize :: "8 word" where
  "MaxSize = 255"

definition withBot :: "bot \<Rightarrow> string \<Rightarrow> game \<Rightarrow> error + game" where
  "withBot bt name g =
     (if bot g \<noteq> None then Inr g
      else if \<not> IsValid (bot_Player bt)
        then Inl (ErrOptionInvalid name (ErrPlayerNotFound (bot_Player bt)))
      else Inr (g\<lparr>bot := Some bt\<rparr>))"

text \<open>
  \<^verbatim>\<open>WithBoard\<close> checks what the caller's board holds and installs the board itself
  (\<^verbatim>\<open>g.board = board\<close>): the game's rows are the caller's rows, in the caller's storage.
\<close>

definition applyWithBoard :: "boardRef \<Rightarrow> game \<Rightarrow> error + game" where
  "applyWithBoard bv g =
     (case check (deref bv) of
        Inl err \<Rightarrow> Inl (ErrOptionInvalid ''WithBoard'' (ErrBoard err))
      | Inr (starter, sz, mt, ts) \<Rightarrow>
          let g1 = g\<lparr>gboard := bv, maxTurns := mt, size_g := sz, turns := ts\<rparr>
          in Inr (if starter > 0 then g1\<lparr>player := starter\<rparr> else g1))"

definition applyWithSize :: "8 word \<Rightarrow> game \<Rightarrow> error + game" where
  "applyWithSize sz g =
     (if board g \<noteq> [] then Inr g
      else if sz < MinSize then Inl (ErrOptionInvalid ''WithSize'' (ErrSize SizeTooSmall))
      else if sz > MaxSize then Inl (ErrOptionInvalid ''WithSize'' (ErrSize SizeTooLarge))
      else Inr (g\<lparr>maxTurns := int (unat sz) * int (unat sz), size_g := sz\<rparr>))"

definition applyWithRandomSize :: "nat \<Rightarrow> game \<Rightarrow> error + game" where
  "applyWithRandomSize r g =
     (if board g \<noteq> [] then Inr g
      else let sz = r mod (unat MaxSize - unat MinSize) + unat MinSize
           in Inr (g\<lparr>maxTurns := int sz * int sz, size_g := of_nat sz\<rparr>))"

definition applyWithStarterPlayer :: "player \<Rightarrow> game \<Rightarrow> error + game" where
  "applyWithStarterPlayer p g =
     (if player g > 0 then Inr g
      else if \<not> IsValid p
        then Inl (ErrOptionInvalid ''WithStarterPlayer'' (ErrPlayerNotFound p))
      else Inr (g\<lparr>player := p\<rparr>))"

fun apply_option :: "game_option \<Rightarrow> game \<Rightarrow> error + game"
  and apply_pack :: "game_option list \<Rightarrow> game \<Rightarrow> error + game" where
  "apply_option (WithBoard bv) g = applyWithBoard bv g"
| "apply_option (WithBot bt) g = withBot bt ''WithBot'' g"
| "apply_option (WithCondition c) g = Inr (g\<lparr>conditions := conditions g @ [c]\<rparr>)"
| "apply_option (WithConditions cs) g = Inr (g\<lparr>conditions := conditions g @ cs\<rparr>)"
| "apply_option (WithEasyBot p) g = withBot (NewEasyBot p) ''WithEasyBot'' g"
| "apply_option (WithHardBot p) g = withBot (NewHardBot p) ''WithHardBot'' g"
| "apply_option (WithImpossibleBot p) g = withBot (NewImpossibleBot p) ''WithImpossibleBot'' g"
| "apply_option (WithNormalBot p) g = withBot (NewNormalBot p) ''WithNormalBot'' g"
| "apply_option (WithPack pack) g = apply_pack pack g"
| "apply_option (WithRandomSize r) g = applyWithRandomSize r g"
| "apply_option (WithRandomStarterPlayer r) g =
     Inr (if player g = 0 then g\<lparr>player := of_nat (r mod 2 + 1)\<rparr> else g)"
| "apply_option (WithSize sz) g = applyWithSize sz g"
| "apply_option (WithStarterPlayer p) g = applyWithStarterPlayer p g"
| "apply_pack [] g = Inr g"
| "apply_pack (opt # opts) g =
     (case apply_option opt g of
        Inl err \<Rightarrow> Inl err
      | Inr g' \<Rightarrow> apply_pack opts g')"

definition draft :: game where
  "draft =
     \<lparr>gboard = nilBoard, conditions = standardConditions,
      maxTurns = int (unat MinSize) * int (unat MinSize), player = 0, size_g = MinSize,
      state = StateAwaitingTurn, turns = [], bot = None\<rparr>"

definition Start :: "game_option list \<Rightarrow> error + game" where
  "Start opts =
     (case apply_pack opts draft of
        Inl err \<Rightarrow> Inl err
      | Inr g \<Rightarrow>
          if board g = [] then
            Inr (let g1 = g\<lparr>gboard := newBoard (size_g g)\<rparr>
                 in if player g1 = 0 then g1\<lparr>player := PlayerOne\<rparr> else g1)
          else case Conditions_FindWinner (conditions g) (board g) of
                 Inl err \<Rightarrow> Inl err
               | Inr winner \<Rightarrow>
                   if winner > 0 then Inr (g\<lparr>state := StateWon, player := winner\<rparr>)
                   else if int (length (turns g)) \<ge> maxTurns g
                     then Inr (g\<lparr>state := StateDraw, player := 0\<rparr>)
                   else if player g = 0 then Inr (g\<lparr>player := PlayerOne\<rparr>)
                   else Inr g)"

section \<open>The command-line front end\<close>

text \<open>
  The constants of \<^verbatim>\<open>internal/bot\<close> and the part of \<^verbatim>\<open>main\<close> that turns the flags
  into the option pack handed to \<^verbatim>\<open>MustStart\<close>: the flags are checked in the order
  player, size, bot, and then the size against the chosen bot's maximum.  An invalid
  flag (\<^verbatim>\<open>handleInvalidFlag\<close>, which exits) is the pair of the flag's name and the
  reason.
\<close>

definition MaxSizeEasy :: "8 word" where
  "MaxSizeEasy = 255"

definition MaxSizeHard :: "8 word" where
  "MaxSizeHard = 255"

definition MaxSizeImpossible :: "8 word" where
  "MaxSizeImpossible = 3"

definition MaxSizeNormal :: "8 word" where
  "MaxSizeNormal = 255"

definition main_bot :: "string \<Rightarrow> (game_option list \<times> 8 word) option" where
  "main_bot botFlag =
     (if botFlag = [] then Some ([], 0)
      else if botFlag = ''easy'' then Some ([WithEasyBot PlayerTwo], MaxSizeEasy)
      else if botFlag = ''normal'' then Some ([WithNormalBot PlayerTwo], MaxSizeNormal)
      else if botFlag = ''hard'' then Some ([WithHardBot PlayerTwo], MaxSizeHard)
      else if botFlag = ''impossible'' then Some ([WithImpossibleBot PlayerTwo], MaxSizeImpossible)
      else None)"

definition main_pack :: "nat \<Rightarrow> nat \<Rightarrow> string \<Rightarrow> (string \<times> string) + game_option list" where
  "main_pack playerFlag sizeFlag botFlag =
     (if playerFlag = 0 \<or> playerFlag > 2 then Inl (''player'', ''value out of range'')
      else if sizeFlag < unat MinSize \<or> sizeFlag > unat MaxSize
        then Inl (''size'', ''value out of range'')
      else
        let pl = (of_nat playerFlag :: player); sz = (of_nat sizeFlag :: 8 word) in
        case main_bot botFlag of
          None \<Rightarrow> Inl (''bot'', ''parse error'')
        | Some (extra, maxSize) \<Rightarrow>
            if botFlag \<noteq> [] \<and> maxSize > 0 \<and> sz > maxSize
              then Inl (''size'', ''bot max board size exceeded'')
            else Inr ([WithSize sz, WithStarterPlayer pl] @ extra))"

section \<open>Well-formed games\<close>

text \<open>
  A board is square of side \<open>n\<close>; a game is well formed when its board is square of
  the game's size and the turn ceiling is the number of cells.
\<close>

definition square :: "nat \<Rightarrow> board \<Rightarrow> bool" where
  "square n b \<longleftrightarrow> length b = n \<and> (\<forall>cols \<in> set b. length cols = n)"

definition wf_game :: "game \<Rightarrow> bool" where
  "wf_game g \<longleftrightarrow>
     square (unat (size_g g)) (board g) \<and>
     maxTurns g = int (unat (size_g g)) * int (unat (size_g g))"

text \<open>The game that \<^verbatim>\<open>Start()\<close> returns without options, used in the examples.\<close>

definition freshGame :: game where
  "freshGame =
     \<lparr>gboard = newBoard 3, conditions = standardConditions,
      maxTurns = 9, player = PlayerOne, size_g = 3, state = StateAwaitingTurn, turns = [],
      bot = None\<rparr>"

section \<open>Notions of the specification\<close>

text \<open>
  The occupied cells of a board in row-major scan order, each with the player that
  holds it; \<open>occupiedFrom\<close> numbers the rows from a given index and \<open>occupiedRow\<close> the
  columns of one row.
\<close>

definition occupiedRow :: "nat \<Rightarrow> nat \<Rightarrow> player list \<Rightarrow> turn list" where
  "occupiedRow row col ps =
     map (\<lambda>(c, p). \<lparr>Cell = \<lparr>Column = of_nat c, Row = of_nat row\<rparr>, Player = p\<rparr>)
       (filter (\<lambda>(c, p). p \<noteq> 0) (enumerate col ps))"

definition occupiedFrom :: "nat \<Rightarrow> board \<Rightarrow> turn list" where
  "occupiedFrom row b = concat (map (\<lambda>(r, cols). occupiedRow r 0 cols) (enumerate row b))"

definition occupiedTurns :: "board \<Rightarrow> turn list" where
  "occupiedTurns b = occupiedFrom 0 b"

text \<open>The number of marks of a player on a board.\<close>

definition marks :: "board \<Rightarrow> player \<Rightarrow> nat" where
  "marks b p = count_list (concat b) p"

text \<open>
  The preset boards that the specification rules out: fewer than 3 or more than 255
  rows, a row whose column count differs from the row count, a non-zero cell that is
  neither player, or mark counts that differ by more than one.
\<close>

definition presetInvalid :: "board \<Rightarrow> bool" where
  "presetInvalid b \<longleftrightarrow>
     length b < 3 \<or> length b > 255 \<or>
     (\<exists>cols \<in> set b. length cols \<noteq> length b) \<or>
     (\<exists>cols \<in> set b. \<exists>p \<in> set cols. p \<noteq> 0 \<and> \<not> IsValid p) \<or>
     \<bar>int (marks b PlayerOne) - int (marks b PlayerTwo)\<bar> > 1"

text \<open>
  The implicit invariant of a game: the history is as long as the board has occupied
  cells, and every recorded turn finds its player in its cell.
\<close>

definition occupiedCount :: "board \<Rightarrow> nat" where
  "occupiedCount b = length (filter (\<lambda>p. p \<noteq> 0) (concat b))"

definition consistent :: "game \<Rightarrow> bool" where
  "consistent g \<longleftrightarrow>
     length (turns g) = occupiedCount (board g) \<and>
     (\<forall>t \<in> set (turns g). getCell (board g) (Cell t) = Player t)"

text \<open>
  A caller's use of a game: a sequence of calls of \<^verbatim>\<open>Play\<close> and \<^verbatim>\<open>AllowBotTurn\<close>,
  each performed on the game the previous one left, whether it returned an error or
  not.  The result is \<open>None\<close> when a call does not return.
\<close>

datatype call = CallPlay turn | CallAllowBotTurn nat

fun perform :: "game \<Rightarrow> call \<Rightarrow> game option" where
  "perform g (CallPlay t) = Some (fst (Play g t))"
| "perform g (CallAllowBotTurn r) = map_option fst (AllowBotTurn g r)"

fun performAll :: "game \<Rightarrow> call list \<Rightarrow> game option" where
  "performAll g [] = Some g"
| "performAll g (c # cs) =
     (case perform g c of None \<Rightarrow> None | Some g' \<Rightarrow> performAll g' cs)"

text \<open>
  Replaying a list of turns through \<^verbatim>\<open>Play\<close>, and whether every submission of the
  replay is accepted.
\<close>

fun replay :: "game \<Rightarrow> turn list \<Rightarrow> game" where
  "replay g [] = g"
| "replay g (t # ts) = replay (fst (Play g t)) ts"

fun replayAccepted :: "game \<Rightarrow> turn list \<Rightarrow> bool" where
  "replayAccepted g [] = True"
| "replayAccepted g (t # ts) =
     (snd (snd (snd (Play g t))) = None \<and> replayAccepted (fst (Play g t)) ts)"

text \<open>
  The invariant carried through construction and play: the game is well formed and
  consistent, and no recorded turn is by the absent player.
\<close>

definition Inv :: "game \<Rightarrow> bool" where
  "Inv g \<longleftrightarrow> wf_game g \<and> consistent g \<and> (\<forall>t \<in> set (turns g). Player t \<noteq> 0)"

text \<open>
  While the options are applied, the draft either has no board yet, and then no turns
  and a turn ceiling that matches its size, or it holds a preset board and satisfies the
  invariant.
\<close>

definition draftInv :: "game \<Rightarrow> bool" where
  "draftInv g \<longleftrightarrow>
     (board g = [] \<longrightarrow>
        turns g = [] \<and> maxTurns g = int (unat (size_g g)) * int (unat (size_g g))) \<and>
     (board g \<noteq> [] \<longrightarrow> Inv g)"

text \<open>Writing a turn's player into its cell, without any check.\<close>

definition placeTurn :: "board \<Rightarrow> turn \<Rightarrow> board" where
  "placeTurn b t = setCell b (Cell t) (Player t)"

text \<open>
  For the two-ply bot: a cell is winning for a player on a board when marking it on a
  copy of the board is reported a winning turn by the conditions.  \<open>botWins\<close> are the
  winning candidates of the bot in scan order; \<open>oppWins\<close> are the opponent's winning
  replies in the order the scan over the candidate-move boards discovers them.
\<close>

definition winningFor :: "conditions \<Rightarrow> board \<Rightarrow> player \<Rightarrow> cell \<Rightarrow> bool" where
  "winningFor cs b p c \<longleftrightarrow>
     Conditions_IsWinningTurn cs (setCell (Copy b) c p) \<lparr>Cell = c, Player = p\<rparr>"

definition botWins :: "conditions \<Rightarrow> board \<Rightarrow> player \<Rightarrow> cell list" where
  "botWins cs b p = filter (winningFor cs b p) (FindEmpty b)"

definition oppWinsAfter :: "conditions \<Rightarrow> board \<Rightarrow> player \<Rightarrow> player \<Rightarrow> cell list \<Rightarrow> cell list" where
  "oppWinsAfter cs b opp p candidates =
     concat (map (\<lambda>c. filter (winningFor cs (setCell (Copy b) c p) opp)
                          (FindEmpty (setCell (Copy b) c p))) candidates)"

definition oppWins :: "conditions \<Rightarrow> board \<Rightarrow> player \<Rightarrow> player \<Rightarrow> cell list" where
  "oppWins cs b opp p = oppWinsAfter cs b opp p (FindEmpty b)"

text \<open>
  For the minimax search: the search below a candidate (the recursive call of the first
  loop), the value it returns, the best value of a list of child values (the maximum on
  the bot's ply, the minimum on the opponent's), and the first candidate in scan order
  whose child attains the best value.
\<close>

definition childSearch :: "nat \<Rightarrow> player \<Rightarrow> board \<Rightarrow> 'a game_core_scheme \<Rightarrow> bool \<Rightarrow> player \<Rightarrow> int
    \<Rightarrow> cell \<Rightarrow> (error + impossibleChoice) option" where
  "childSearch n bp b g mx pl depth candidate =
     minimax n bp (setCell (Copy b) candidate pl) g \<lparr>Cell = candidate, Player = pl\<rparr>
       (\<not> mx) (Next pl) (depth + 1)"

definition childValue :: "nat \<Rightarrow> player \<Rightarrow> board \<Rightarrow> 'a game_core_scheme \<Rightarrow> bool \<Rightarrow> player \<Rightarrow> int
    \<Rightarrow> cell \<Rightarrow> int" where
  "childValue n bp b g mx pl depth candidate =
     (case childSearch n bp b g mx pl depth candidate of
        Some (Inr choice) \<Rightarrow> ch_value choice
      | _ \<Rightarrow> 0)"

definition bestValue :: "bool \<Rightarrow> int list \<Rightarrow> int" where
  "bestValue mx vs = (if mx then Max (set vs) else Min (set vs))"

definition bestCell :: "nat \<Rightarrow> player \<Rightarrow> board \<Rightarrow> 'a game_core_scheme \<Rightarrow> bool \<Rightarrow> player \<Rightarrow> int
    \<Rightarrow> cell" where
  "bestCell n bp b g mx pl depth =
     hd (filter (\<lambda>c. childValue n bp b g mx pl depth c
                       = bestValue mx (map (childValue n bp b g mx pl depth) (FindEmpty b)))
          (FindEmpty b))"

text \<open>
  For the game of the minimax bot: a board all of whose cells are empty or hold a valid
  player, and the winner of a line of three cells (the value that \<^verbatim>\<open>findWinnerFromRow\<close>
  and its siblings compute on a line of a size-3 board).
\<close>

definition validBoard :: "board \<Rightarrow> bool" where
  "validBoard b \<longleftrightarrow> (\<forall>cols \<in> set b. \<forall>p \<in> set cols. IsValidOrZero p)"

definition line3 :: "player \<Rightarrow> player \<Rightarrow> player \<Rightarrow> player" where
  "line3 x y z = (if x \<noteq> 0 \<and> y = x \<and> z = x then x else 0)"

text \<open>
  The outcome of a position for the bot's player under the standard conditions, by
  exhaustive search as \<^verbatim>\<open>minimax\<close> performs it but without depths and cells: 1 for a
  win of the bot's player, -1 for a win of the opponent, 0 for a draw.  The first
  argument bounds the recursion as in \<open>minimax\<close>.
\<close>

fun outcome :: "nat \<Rightarrow> player \<Rightarrow> board \<Rightarrow> bool \<Rightarrow> player \<Rightarrow> int" where
  "outcome 0 bp b mx pl = 0"
| "outcome (Suc n) bp b mx pl =
     (case Conditions_FindWinner standardConditions b of
        Inl err \<Rightarrow> 0
      | Inr winner \<Rightarrow>
          if winner = bp then 1
          else if winner = Next bp then - 1
          else if FindEmpty b = [] then 0
          else bestValue mx (map (\<lambda>c. outcome n bp (setCell b c pl) (\<not> mx) (Next pl))
                               (FindEmpty b)))"

text \<open>
  A strategy for the second player of the size-3 game, as a tree: \<open>Reply i ss\<close> answers
  the opponent's move by marking the \<open>i\<close>-th empty cell in scan order, and \<open>ss\<close> holds
  one subtree per empty cell that the opponent may then mark, again in scan order.
  \<open>safeBot\<close> and \<open>safeOpp\<close> check a strategy against the standard conditions: following
  it, no board arises that the conditions report won by the opponent.
\<close>

datatype strategy = Reply nat "strategy list"

fun safeBot :: "player \<Rightarrow> board \<Rightarrow> strategy \<Rightarrow> bool"
  and safeOpp :: "player \<Rightarrow> board \<Rightarrow> cell list \<Rightarrow> strategy list \<Rightarrow> bool" where
  "safeBot bp b (Reply i ss) =
     (case Conditions_FindWinner standardConditions b of
        Inl err \<Rightarrow> False
      | Inr w \<Rightarrow>
          if w = bp then True
          else if w = Next bp then False
          else if FindEmpty b = [] then True
          else i < length (FindEmpty b) \<and>
            (case Conditions_FindWinner standardConditions (setCell b (FindEmpty b ! i) bp) of
               Inl err \<Rightarrow> False
             | Inr w2 \<Rightarrow>
                 if w2 = bp then True
                 else if w2 = Next bp then False
                 else if FindEmpty (setCell b (FindEmpty b ! i) bp) = [] then True
                 else safeOpp bp (setCell b (FindEmpty b ! i) bp)
                        (FindEmpty (setCell b (FindEmpty b ! i) bp)) ss))"
| "safeOpp bp b [] [] = True"
| "safeOpp bp b (c # cs) (s # ss) =
     (safeBot bp (setCell b c (Next bp)) s \<and> safeOpp bp b cs ss)"
| "safeOpp bp b [] (s # ss) = False"
| "safeOpp bp b (c # cs) [] = False"

text \<open>A strategy with which the second player never loses.\<close>

definition secondPlayerStrategy :: "strategy list" where
  "secondPlayerStrategy =
     [Reply 3 [Reply 0 [Reply 1 [], Reply 1 [], Reply 0 [Reply 0 [Reply 0 []], Reply 0 [], Reply
     0 []], Reply 2 [], Reply 2 []], Reply 0 [Reply 2 [], Reply 2 [], Reply 2 [], Reply 0 [Reply
     1 [Reply 0 []], Reply 0 [], Reply 0 []], Reply 3 []], Reply 3 [Reply 0 [], Reply 0 [Reply 0
     [], Reply 0 [Reply 0 []], Reply 1 []], Reply 1 [], Reply 1 [], Reply 1 []], Reply 0 [Reply 2
     [], Reply 2 [], Reply 2 [], Reply 2 [Reply 1 [Reply 0 []], Reply 0 [], Reply 0 []], Reply 3
     []], Reply 2 [Reply 1 [], Reply 1 [], Reply 0 [Reply 0 [], Reply 1 [Reply 0 []], Reply 1
     []], Reply 2 [], Reply 2 []], Reply 2 [Reply 1 [], Reply 1 [], Reply 1 [Reply 0 [], Reply 1
     [Reply 0 []], Reply 1 []], Reply 2 [], Reply 2 []], Reply 0 [Reply 3 [], Reply 3 [], Reply 3
     [], Reply 3 [], Reply 3 [Reply 1 [Reply 0 []], Reply 0 [], Reply 0 []]]], Reply 3 [Reply 0
     [Reply 1 [], Reply 1 [], Reply 0 [Reply 0 [Reply 0 []], Reply 0 [], Reply 0 []], Reply 2 [],
     Reply 2 []], Reply 0 [Reply 3 [], Reply 3 [], Reply 3 [], Reply 3 [], Reply 1 [Reply 0
     [Reply 0 []], Reply 0 [], Reply 0 []]], Reply 0 [Reply 3 [], Reply 3 [], Reply 3 [], Reply 3
     [], Reply 0 [Reply 0 [], Reply 1 [Reply 0 []], Reply 1 []]], Reply 0 [Reply 3 [], Reply 3
     [], Reply 3 [], Reply 3 [], Reply 0 [Reply 0 [], Reply 1 [Reply 0 []], Reply 1 []]], Reply 2
     [Reply 1 [], Reply 1 [], Reply 3 [Reply 0 [Reply 0 []], Reply 0 [], Reply 0 []], Reply 2 [],
     Reply 2 []], Reply 0 [Reply 3 [], Reply 3 [], Reply 3 [], Reply 3 [], Reply 3 [Reply 0 [],
     Reply 0 [], Reply 0 []]], Reply 2 [Reply 1 [], Reply 1 [], Reply 1 [Reply 0 [], Reply 1
     [Reply 0 []], Reply 1 []], Reply 2 [], Reply 2 []]], Reply 3 [Reply 0 [Reply 2 [], Reply 2
     [], Reply 2 [], Reply 0 [Reply 1 [Reply 0 []], Reply 0 [], Reply 0 []], Reply 3 []], Reply 0
     [Reply 3 [], Reply 3 [], Reply 3 [], Reply 3 [], Reply 1 [Reply 0 [Reply 0 []], Reply 0 [],
     Reply 0 []]], Reply 1 [Reply 2 [], Reply 2 [], Reply 2 [], Reply 3 [Reply 1 [Reply 0 []],
     Reply 0 [], Reply 0 []], Reply 3 []], Reply 5 [Reply 0 [Reply 1 [], Reply 1 [], Reply 0
     [Reply 0 []]], Reply 0 [], Reply 0 [], Reply 0 [], Reply 0 []], Reply 1 [Reply 2 [], Reply 2
     [], Reply 2 [], Reply 3 [Reply 0 [Reply 0 []], Reply 0 [], Reply 0 []], Reply 3 []], Reply 2
     [Reply 1 [], Reply 1 [], Reply 3 [Reply 0 [Reply 0 []], Reply 0 [], Reply 0 []], Reply 2 [],
     Reply 2 []], Reply 3 [Reply 1 [], Reply 1 [], Reply 1 [Reply 1 [], Reply 1 [], Reply 1
     [Reply 0 []]], Reply 2 [], Reply 2 []]], Reply 3 [Reply 3 [Reply 0 [], Reply 0 [Reply 0 [],
     Reply 0 [Reply 0 []], Reply 1 []], Reply 1 [], Reply 1 [], Reply 1 []], Reply 0 [Reply 3 [],
     Reply 3 [], Reply 3 [], Reply 3 [], Reply 0 [Reply 0 [], Reply 1 [Reply 0 []], Reply 1 []]],
     Reply 1 [Reply 2 [], Reply 2 [], Reply 2 [], Reply 3 [Reply 1 [Reply 0 []], Reply 0 [],
     Reply 0 []], Reply 3 []], Reply 0 [Reply 3 [], Reply 3 [], Reply 3 [], Reply 3 [], Reply 1
     [Reply 0 [], Reply 0 [], Reply 0 []]], Reply 0 [Reply 3 [], Reply 3 [], Reply 3 [], Reply 3
     [], Reply 3 [Reply 0 [Reply 0 []], Reply 0 [], Reply 0 []]], Reply 0 [Reply 3 [], Reply 3
     [], Reply 3 [], Reply 3 [], Reply 3 [Reply 0 [], Reply 1 [Reply 0 []], Reply 1 []]], Reply 1
     [Reply 3 [], Reply 3 [], Reply 3 [], Reply 3 [], Reply 3 [Reply 0 [], Reply 1 [Reply 0 []],
     Reply 1 []]]], Reply 0 [Reply 4 [Reply 2 [Reply 1 [], Reply 0 [], Reply 0 []], Reply 1
     [Reply 0 [Reply 0 []], Reply 0 [Reply 0 []], Reply 0 [Reply 0 []]], Reply 1 [Reply 0 [],
     Reply 0 [Reply 0 []], Reply 1 []], Reply 0 [Reply 0 [Reply 0 []], Reply 0 [Reply 0 []],
     Reply 0 [Reply 0 []]], Reply 1 [Reply 1 [], Reply 1 [], Reply 0 [Reply 0 []]]], Reply 3
     [Reply 0 [], Reply 1 [Reply 0 [Reply 0 []], Reply 0 [Reply 0 []], Reply 0 [Reply 0 []]],
     Reply 1 [], Reply 1 [], Reply 1 []], Reply 2 [Reply 2 [Reply 0 [Reply 0 []], Reply 0 [Reply
     0 []], Reply 0 [Reply 0 []]], Reply 1 [Reply 0 [Reply 0 []], Reply 0 [Reply 0 []], Reply 0
     [Reply 0 []]], Reply 1 [Reply 1 [], Reply 0 [], Reply 0 []], Reply 0 [Reply 0 [Reply 0 []],
     Reply 0 [], Reply 0 []], Reply 0 [Reply 0 [Reply 0 []], Reply 0 [], Reply 0 []]], Reply 2
     [Reply 1 [], Reply 1 [], Reply 1 [Reply 0 [Reply 0 []], Reply 0 [], Reply 0 []], Reply 2 [],
     Reply 2 []], Reply 1 [Reply 2 [Reply 0 [Reply 0 []], Reply 0 [Reply 0 []], Reply 0 [Reply 0
     []]], Reply 0 [], Reply 0 [], Reply 0 [], Reply 0 []], Reply 0 [Reply 2 [Reply 0 [Reply 0
     []], Reply 0 [], Reply 0 []], Reply 0 [], Reply 0 [], Reply 0 [], Reply 0 []], Reply 1
     [Reply 3 [Reply 0 [Reply 0 []], Reply 0 [Reply 0 []], Reply 0 [Reply 0 []]], Reply 0 [],
     Reply 0 [], Reply 0 [], Reply 0 []]], Reply 4 [Reply 0 [Reply 2 [], Reply 2 [], Reply 2 [],
     Reply 2 [Reply 1 [Reply 0 []], Reply 0 [], Reply 0 []], Reply 3 []], Reply 0 [Reply 3 [],
     Reply 3 [], Reply 3 [], Reply 3 [], Reply 0 [Reply 0 [], Reply 1 [Reply 0 []], Reply 1 []]],
     Reply 5 [Reply 0 [Reply 1 [], Reply 1 [], Reply 0 [Reply 0 []]], Reply 0 [], Reply 0 [],
     Reply 0 [], Reply 0 []], Reply 0 [Reply 3 [], Reply 3 [], Reply 3 [], Reply 3 [], Reply 1
     [Reply 0 [], Reply 0 [], Reply 0 []]], Reply 1 [Reply 2 [], Reply 2 [], Reply 2 [], Reply 3
     [Reply 1 [Reply 0 []], Reply 0 [], Reply 0 []], Reply 3 []], Reply 2 [Reply 2 [], Reply 2
     [], Reply 2 [], Reply 3 [Reply 1 [Reply 0 []], Reply 0 [], Reply 0 []], Reply 3 []], Reply 2
     [Reply 2 [], Reply 2 [], Reply 2 [], Reply 3 [Reply 0 [], Reply 0 [Reply 0 []], Reply 1 []],
     Reply 3 []]], Reply 4 [Reply 2 [Reply 1 [], Reply 1 [], Reply 0 [Reply 0 [], Reply 1 [Reply
     0 []], Reply 1 []], Reply 2 [], Reply 2 []], Reply 2 [Reply 1 [], Reply 1 [], Reply 3 [Reply
     0 [Reply 0 []], Reply 0 [], Reply 0 []], Reply 2 [], Reply 2 []], Reply 1 [Reply 2 [], Reply
     2 [], Reply 2 [], Reply 3 [Reply 0 [Reply 0 []], Reply 0 [], Reply 0 []], Reply 3 []], Reply
     0 [Reply 3 [], Reply 3 [], Reply 3 [], Reply 3 [], Reply 3 [Reply 0 [Reply 0 []], Reply 0
     [], Reply 0 []]], Reply 1 [Reply 2 [], Reply 2 [], Reply 2 [], Reply 3 [Reply 1 [Reply 0
     []], Reply 0 [], Reply 0 []], Reply 3 []], Reply 5 [Reply 2 [Reply 1 [], Reply 1 [], Reply 0
     [Reply 0 []]], Reply 0 [], Reply 0 [], Reply 0 [], Reply 0 []], Reply 5 [Reply 0 [], Reply 2
     [Reply 1 [], Reply 1 [], Reply 1 [Reply 0 []]], Reply 1 [], Reply 1 [], Reply 1 []]], Reply
     4 [Reply 2 [Reply 1 [], Reply 1 [], Reply 1 [Reply 0 [], Reply 1 [Reply 0 []], Reply 1 []],
     Reply 2 [], Reply 2 []], Reply 0 [Reply 3 [], Reply 3 [], Reply 3 [], Reply 3 [], Reply 3
     [Reply 0 [], Reply 0 [], Reply 0 []]], Reply 2 [Reply 1 [], Reply 1 [], Reply 3 [Reply 0
     [Reply 0 []], Reply 0 [], Reply 0 []], Reply 2 [], Reply 2 []], Reply 0 [Reply 3 [], Reply 3
     [], Reply 3 [], Reply 3 [], Reply 3 [Reply 0 [], Reply 1 [Reply 0 []], Reply 1 []]], Reply 2
     [Reply 2 [], Reply 2 [], Reply 2 [], Reply 3 [Reply 1 [Reply 0 []], Reply 0 [], Reply 0 []],
     Reply 3 []], Reply 5 [Reply 2 [Reply 1 [], Reply 1 [], Reply 0 [Reply 0 []]], Reply 0 [],
     Reply 0 [], Reply 0 [], Reply 0 []], Reply 5 [Reply 1 [], Reply 1 [], Reply 3 [Reply 1 [],
     Reply 1 [], Reply 0 [Reply 0 []]], Reply 2 [], Reply 2 []]], Reply 4 [Reply 0 [Reply 3 [],
     Reply 3 [], Reply 3 [], Reply 3 [], Reply 3 [Reply 1 [Reply 0 []], Reply 0 [], Reply 0 []]],
     Reply 2 [Reply 1 [], Reply 1 [], Reply 1 [Reply 0 [], Reply 1 [Reply 0 []], Reply 1 []],
     Reply 2 [], Reply 2 []], Reply 3 [Reply 1 [], Reply 1 [], Reply 1 [Reply 1 [], Reply 1 [],
     Reply 1 [Reply 0 []]], Reply 2 [], Reply 2 []], Reply 1 [Reply 3 [], Reply 3 [], Reply 3 [],
     Reply 3 [], Reply 3 [Reply 0 [], Reply 1 [Reply 0 []], Reply 1 []]], Reply 2 [Reply 2 [],
     Reply 2 [], Reply 2 [], Reply 3 [Reply 0 [], Reply 0 [Reply 0 []], Reply 1 []], Reply 3 []],
     Reply 5 [Reply 0 [], Reply 2 [Reply 1 [], Reply 1 [], Reply 1 [Reply 0 []]], Reply 1 [],
     Reply 1 [], Reply 1 []], Reply 5 [Reply 1 [], Reply 1 [], Reply 3 [Reply 1 [], Reply 1 [],
     Reply 0 [Reply 0 []]], Reply 2 [], Reply 2 []]]]"

text \<open>
  The invariant of a size-3 game under the standard conditions whose impossible bot
  plays \<open>bp\<close>: the game satisfies the general invariant and the rows of its board lie
  apart; while it awaits a turn, the board has no winner, fewer than nine turns are
  recorded, and the outcome of the position for the player on move is not a loss of the
  bot; and a won game is won by the bot's player.
\<close>

definition botGame :: "player \<Rightarrow> game \<Rightarrow> bool" where
  "botGame bp g \<longleftrightarrow>
     Inv g \<and> ownRows (gboard g) \<and> size_g g = 3 \<and> maxTurns g = 9 \<and>
     conditions g = standardConditions \<and>
     bot g = Some (ImpossibleBot bp) \<and> validBoard (board g) \<and>
     (state g = StateAwaitingTurn \<longrightarrow>
        Conditions_FindWinner standardConditions (board g) = Inr 0 \<and>
        length (turns g) < 9 \<and> (player g = bp \<or> player g = Next bp) \<and>
        0 \<le> outcome (Suc (length (FindEmpty (board g)))) bp (board g) (player g = bp) (player g)) \<and>
     (state g = StateWon \<longrightarrow> player g = bp)"

text \<open>
  The options that leave the board to \<^verbatim>\<open>Start\<close>: no \<^verbatim>\<open>WithBoard\<close> among them, nor
  inside a pack.
\<close>

fun noPreset :: "game_option \<Rightarrow> bool"
  and noPresets :: "game_option list \<Rightarrow> bool" where
  "noPreset (WithBoard bv) = False"
| "noPreset (WithPack pack) = noPresets pack"
| "noPreset opt = True"
| "noPresets [] = True"
| "noPresets (opt # opts) = (noPreset opt \<and> noPresets opts)"

text \<open>A draft to which no board has been given yet.\<close>

definition blank :: "game \<Rightarrow> bool" where
  "blank g \<longleftrightarrow> gboard g = nilBoard \<and> turns g = [] \<and> state g = StateAwaitingTurn"

section \<open>Boards and conditions of the examples\<close>

text \<open>
  The board \<^verbatim>\<open>Board{row, row, row}\<close> for one \<^verbatim>\<open>row := make([]Player, 3)\<close>: three empty
  rows that are the same array.
\<close>

definition sharedRows :: boardRef where
  "sharedRows = \<lparr>storage = (\<lambda>a. 0), rowRefs = [(0, 3), (0, 3), (0, 3)]\<rparr>"

text \<open>
  A caller's winning condition, for \<^verbatim>\<open>WithCondition\<close>: the player on the top left cell
  has won.
\<close>

definition cornerCondition :: condition where
  "cornerCondition =
     \<lparr>FindWinner = (\<lambda>b. getCell b \<lparr>Column = 0, Row = 0\<rparr>),
      IsWinningTurn = (\<lambda>b t. Cell t = \<lparr>Column = 0, Row = 0\<rparr>)\<rparr>"

text \<open>Whether a game holds the impossible bot for a given player.\<close>

definition hasImpossibleBot :: "game \<Rightarrow> player \<Rightarrow> bool" where
  "hasImpossibleBot g p = (case bot g of Some (ImpossibleBot q) \<Rightarrow> q = p | _ \<Rightarrow> False)"

text \<open>
  Two games in play, without a bot and with \<^verbatim>\<open>PlayerOne\<close> on move: in the first the
  top right cell completes the top row, in the second the bottom right cell is the last
  empty one and completes no line.
\<close>

definition rowGame :: game where
  "rowGame =
     \<lparr>gboard = alloc [[1, 1, 0], [2, 2, 0], [0, 0, 0]], conditions = standardConditions,
      maxTurns = 9, player = PlayerOne, size_g = 3, state = StateAwaitingTurn,
      turns = [\<lparr>Cell = \<lparr>Column = 0, Row = 0\<rparr>, Player = 1\<rparr>,
               \<lparr>Cell = \<lparr>Column = 0, Row = 1\<rparr>, Player = 2\<rparr>,
               \<lparr>Cell = \<lparr>Column = 1, Row = 0\<rparr>, Player = 1\<rparr>,
               \<lparr>Cell = \<lparr>Column = 1, Row = 1\<rparr>, Player = 2\<rparr>],
      bot = None\<rparr>"

definition lastCellGame :: game where
  "lastCellGame =
     \<lparr>gboard = alloc [[1, 2, 1], [1, 2, 2], [2, 1, 0]], conditions = standardConditions,
      maxTurns = 9, player = PlayerOne, size_g = 3, state = StateAwaitingTurn,
      turns = [\<lparr>Cell = \<lparr>Column = 0, Row = 0\<rparr>, Player = 1\<rparr>,
               \<lparr>Cell = \<lparr>Column = 1, Row = 0\<rparr>, Player = 2\<rparr>,
               \<lparr>Cell = \<lparr>Column = 2, Row = 0\<rparr>, Player = 1\<rparr>,
               \<lparr>Cell = \<lparr>Column = 1, Row = 1\<rparr>, Player = 2\<rparr>,
               \<lparr>Cell = \<lparr>Column = 0, Row = 1\<rparr>, Player = 1\<rparr>,
               \<lparr>Cell = \<lparr>Column = 2, Row = 1\<rparr>, Player = 2\<rparr>,
               \<lparr>Cell = \<lparr>Column = 1, Row = 2\<rparr>, Player = 1\<rparr>,
               \<lparr>Cell = \<lparr>Column = 0, Row = 2\<rparr>, Player = 2\<rparr>],
      bot = None\<rparr>"

section \<open>Reading and writing boards in storage\<close>

lemma board_gboard_update [simp]: "board (g\<lparr>gboard := bv\<rparr>) = deref bv"
  by (simp add: board_def)

lemma board_conditions_update [simp]: "board (g\<lparr>conditions := x\<rparr>) = board g"
  by (simp add: board_def)

lemma board_maxTurns_update [simp]: "board (g\<lparr>maxTurns := x\<rparr>) = board g"
  by (simp add: board_def)

lemma board_player_update [simp]: "board (g\<lparr>player := x\<rparr>) = board g"
  by (simp add: board_def)

lemma board_size_g_update [simp]: "board (g\<lparr>size_g := x\<rparr>) = board g"
  by (simp add: board_def)

lemma board_state_update [simp]: "board (g\<lparr>state := x\<rparr>) = board g"
  by (simp add: board_def)

lemma board_turns_update [simp]: "board (g\<lparr>turns := x\<rparr>) = board g"
  by (simp add: board_def)

lemma board_bot_update [simp]: "board (g\<lparr>bot := x\<rparr>) = board g"
  by (simp add: board_def)

lemma board_record [simp]:
  "board \<lparr>gboard = bv, conditions = cs, maxTurns = mt, player = pl, size_g = sz, state = st,
          turns = ts, \<dots> = m\<rparr> = deref bv"
  by (simp add: board_def)

lemma board_handle [simp]: "board (handle g) = board g"
  by (simp add: board_def handle_def)

lemma length_readRow [simp]: "length (readRow s r) = snd r"
  by (simp add: readRow_def)

lemma nth_readRow [simp]: "k < snd r \<Longrightarrow> readRow s r ! k = s (fst r + k)"
  by (simp add: readRow_def)

lemma length_deref [simp]: "length (deref bv) = length (rowRefs bv)"
  by (simp add: deref_def)

lemma nth_deref [simp]: "r < length (rowRefs bv) \<Longrightarrow> deref bv ! r = readRow (storage bv) (rowRefs bv ! r)"
  by (simp add: deref_def)

lemma rowRefs_assign [simp]: "rowRefs (assign bv c p) = rowRefs bv"
  by (simp add: assign_def Let_def)

lemma ownRows_assign [simp]: "ownRows (assign bv c p) = ownRows bv"
  by (simp add: ownRows_def)

text \<open>The cell assigned to holds the player afterwards, whatever storage the rows share.\<close>

lemma getCell_assign:
  assumes "unat (Row c) < length (rowRefs bv)"
    and "unat (Column c) < snd (rowRefs bv ! unat (Row c))"
  shows "getCell (deref (assign bv c p)) c = p"
  using assms by (simp add: getCell_def assign_def Let_def)

lemma readRow_update_apart:
  assumes "apart q r" and "k < snd r"
  shows "readRow (s(fst r + k := p)) q = readRow s q"
  using assms by (auto simp: readRow_def apart_def)

lemma readRow_update_same:
  assumes "k < snd r"
  shows "readRow (s(fst r + k := p)) r = (readRow s r)[k := p]"
  using assms by (auto simp: readRow_def intro!: nth_equalityI)

lemma apart_sym: "apart r q \<longleftrightarrow> apart q r"
  by (auto simp: apart_def)

lemma ownRows_nth:
  assumes "ownRows bv" and "i < length (rowRefs bv)" and "j < length (rowRefs bv)" and "i \<noteq> j"
  shows "apart (rowRefs bv ! i) (rowRefs bv ! j)"
proof (cases "i < j")
  case True
  with assms show ?thesis by (simp add: ownRows_def sorted_wrt_iff_nth_less)
next
  case False
  with assms have "j < i" by simp
  with assms have "apart (rowRefs bv ! j) (rowRefs bv ! i)"
    by (simp add: ownRows_def sorted_wrt_iff_nth_less)
  then show ?thesis by (simp add: apart_sym)
qed

text \<open>
  On a board whose rows lie apart, the assignment changes the one cell it names.
\<close>

lemma deref_assign:
  assumes "ownRows bv"
  shows "deref (assign bv c p) = setCell (deref bv) c p"
proof (cases "unat (Row c) < length (rowRefs bv) \<and> unat (Column c) < snd (rowRefs bv ! unat (Row c))")
  case False
  then have a: "assign bv c p = bv" by (auto simp: assign_def Let_def)
  show ?thesis
  proof (cases "unat (Row c) < length (rowRefs bv)")
    case True
    with False have "length (deref bv ! unat (Row c)) \<le> unat (Column c)" by simp
    then have "(deref bv ! unat (Row c))[unat (Column c) := p] = deref bv ! unat (Row c)"
      by (rule list_update_beyond)
    then show ?thesis by (simp add: a setCell_def)
  next
    case False
    then show ?thesis by (simp add: a setCell_def list_update_beyond)
  qed
next
  case True
  let ?r = "unat (Row c)" and ?k = "unat (Column c)"
  let ?s' = "(storage bv)(fst (rowRefs bv ! ?r) + ?k := p)"
  have a: "assign bv c p = bv\<lparr>storage := ?s'\<rparr>" using True by (simp add: assign_def Let_def)
  show ?thesis
  proof (rule nth_equalityI)
    show "length (deref (assign bv c p)) = length (setCell (deref bv) c p)"
      by (simp add: setCell_def)
  next
    fix i assume "i < length (deref (assign bv c p))"
    then have i: "i < length (rowRefs bv)" by simp
    show "deref (assign bv c p) ! i = setCell (deref bv) c p ! i"
    proof (cases "i = ?r")
      case True
      with \<open>?r < length (rowRefs bv) \<and> ?k < snd (rowRefs bv ! ?r)\<close> show ?thesis
        by (simp add: a setCell_def readRow_update_same)
    next
      case False
      from ownRows_nth [OF assms i _ False] True
      have "apart (rowRefs bv ! i) (rowRefs bv ! ?r)" by simp
      with True False i show ?thesis
        by (simp add: a setCell_def readRow_update_apart)
    qed
  qed
qed

lemma board_assign:
  "ownRows (gboard g) \<Longrightarrow> deref (assign (gboard g) c p) = setCell (board g) c p"
  by (simp add: board_def deref_assign)

text \<open>A board allocated for given rows holds them, in rows that lie apart.\<close>

lemma map_readRow_layout:
  assumes "\<And>i. i < length (concat b) \<Longrightarrow> s (a + i) = concat b ! i"
  shows "map (readRow s) (layout a b) = b"
  using assms
proof (induction b arbitrary: a)
  case Nil
  show ?case by simp
next
  case (Cons cols b)
  have "readRow s (a, length cols) = cols"
  proof (rule nth_equalityI)
    show "length (readRow s (a, length cols)) = length cols" by simp
  next
    fix k assume "k < length (readRow s (a, length cols))"
    then have k: "k < length cols" by simp
    with Cons.prems [of k] show "readRow s (a, length cols) ! k = cols ! k"
      by (simp add: nth_append)
  qed
  moreover have "map (readRow s) (layout (a + length cols) b) = b"
  proof (rule Cons.IH)
    fix i assume "i < length (concat b)"
    with Cons.prems [of "length cols + i"] show "s (a + length cols + i) = concat b ! i"
      by (simp add: nth_append add.assoc)
  qed
  ultimately show ?case by simp
qed

lemma deref_alloc [simp]: "deref (alloc b) = b"
  unfolding deref_def alloc_def by (simp add: map_readRow_layout)

lemma layout_lower: "q \<in> set (layout a b) \<Longrightarrow> a \<le> fst q"
  by (induction a b rule: layout.induct) auto

lemma sorted_wrt_layout: "sorted_wrt apart (layout a b)"
  by (induction a b rule: layout.induct) (auto simp: apart_def dest: layout_lower)

lemma ownRows_alloc [simp]: "ownRows (alloc b)"
  by (simp add: ownRows_def alloc_def sorted_wrt_layout)

lemma deref_newBoard: "deref (newBoard n) = replicate (unat n) (replicate (unat n) 0)"
  by (simp add: newBoard_def)

lemma ownRows_newBoard [simp]: "ownRows (newBoard n)"
  by (simp add: newBoard_def)

lemma deref_nilBoard [simp]: "deref nilBoard = []"
  by (simp add: deref_def nilBoard_def)

lemma deref_eq_Nil [simp]: "deref bv = [] \<longleftrightarrow> rowRefs bv = []"
  by (simp add: deref_def)

section \<open>Basic facts\<close>

lemma IsValid_nonzero: "IsValid p \<Longrightarrow> p \<noteq> 0"
  by (auto simp: IsValid_def PlayerOne_def PlayerTwo_def)

lemma IsValid_Next: "IsValid p \<Longrightarrow> IsValid (Next p) \<and> Next p \<noteq> p"
  by (auto simp: IsValid_def Next_def PlayerOne_def PlayerTwo_def)

lemma square_nth: "square n b \<Longrightarrow> i < n \<Longrightarrow> length (b ! i) = n"
  using nth_mem [of i b] by (auto simp: square_def)

lemma getCell_setCell_same:
  "square n b \<Longrightarrow> unat (Row c) < n \<Longrightarrow> unat (Column c) < n \<Longrightarrow>
   getCell (setCell b c p) c = p"
proof -
  assume sq: "square n b" and r: "unat (Row c) < n" and c: "unat (Column c) < n"
  have lb: "length b = n" using sq by (simp add: square_def)
  have "length (b ! unat (Row c)) = n" using sq r by (rule square_nth)
  with lb show ?thesis using r c by (simp add: getCell_def setCell_def)
qed

lemma square_setCell: "square n b \<Longrightarrow> square n (setCell b c p)"
proof (cases "unat (Row c) < length b")
  case True
  then have "length (b ! unat (Row c)) = n" if "square n b"
    using that nth_mem [OF True] by (simp add: square_def)
  moreover assume "square n b"
  ultimately show ?thesis
    by (auto simp: square_def setCell_def dest!: set_update_subset_insert [THEN subsetD])
next
  case False
  moreover assume "square n b"
  ultimately show ?thesis by (simp add: setCell_def list_update_beyond)
qed

lemma Copy_square: "square n b \<Longrightarrow> Copy b = b"
  by (simp add: Copy_def square_def map_idI)

lemma replicate_3: "replicate 3 x = [x, x, x]"
  by (simp add: numeral_3_eq_3)

lemma deref_newBoard_3: "deref (newBoard 3) = [[0, 0, 0], [0, 0, 0], [0, 0, 0]]"
  by (simp add: deref_newBoard replicate_3)

lemma board_freshGame: "board freshGame = [[0, 0, 0], [0, 0, 0], [0, 0, 0]]"
  by (simp add: board_def freshGame_def deref_newBoard_3)

lemma ownRows_freshGame: "ownRows (gboard freshGame)"
  by (simp add: freshGame_def)

lemma wf_freshGame: "wf_game freshGame"
  by (simp add: wf_game_def board_freshGame square_def) (simp add: freshGame_def)

section \<open>The combined winner scan\<close>

lemma FindWinner_from_all_zero:
  "(\<forall>c \<in> set cs. FindWinner c b = 0) \<Longrightarrow> FindWinner_from i cs b = Inr 0"
  by (induction cs arbitrary: i) (simp_all add: IsValidOrZero_def)

lemma FindWinner_from_first:
  "(\<forall>c \<in> set pre. FindWinner c b = 0) \<Longrightarrow> FindWinner c b \<noteq> 0 \<Longrightarrow>
   FindWinner_from i (pre @ c # post) b =
     (if IsValid (FindWinner c b) then Inr (FindWinner c b)
      else Inl (ErrConditionInvalid (i + length pre) (FindWinner c b)))"
  by (induction pre arbitrary: i) (simp_all add: IsValidOrZero_def Let_def word_gt_0)

text \<open>
  Claim C7.  \<^verbatim>\<open>Conditions.FindWinner\<close> evaluates the conditions in registration order:
  when every condition reports zero the result is the zero winner without error; and
  when the conditions before \<open>c\<close> report zero and \<open>c\<close> reports a non-zero value, the
  conditions after \<open>c\<close> play no part: the result is that value if it is a valid player,
  and otherwise the invalid-condition error carrying the index of \<open>c\<close>.
\<close>

theorem C7_FindWinner_first_reported:
  "((\<forall>c \<in> set cs. FindWinner c b = 0) \<longrightarrow> Conditions_FindWinner cs b = Inr 0) \<and>
   ((\<forall>c' \<in> set pre. FindWinner c' b = 0) \<and> FindWinner c b \<noteq> 0 \<longrightarrow>
      Conditions_FindWinner (pre @ c # post) b =
        (if IsValid (FindWinner c b) then Inr (FindWinner c b)
         else Inl (ErrConditionInvalid (length pre) (FindWinner c b))) \<and>
      (\<not> IsValid (FindWinner c b) \<longrightarrow>
         (\<exists>e. Conditions_FindWinner (pre @ c # post) b = Inl e \<and>
              category_of e = InvalidCondition)))"
  using FindWinner_from_all_zero [of cs b 0] FindWinner_from_first [of pre b c 0 post]
  by (simp add: Conditions_FindWinner_def)

theorem C7_FindWinner_first_reported_witness:
  "Conditions_FindWinner
     [\<lparr>FindWinner = (\<lambda>b. 0), IsWinningTurn = (\<lambda>b t. False)\<rparr>,
      \<lparr>FindWinner = (\<lambda>b. 7), IsWinningTurn = (\<lambda>b t. False)\<rparr>,
      \<lparr>FindWinner = (\<lambda>b. PlayerOne), IsWinningTurn = (\<lambda>b t. False)\<rparr>] []
     = Inl (ErrConditionInvalid 1 7) \<and>
   Conditions_FindWinner [\<lparr>FindWinner = (\<lambda>b. 0), IsWinningTurn = (\<lambda>b t. False)\<rparr>] [] = Inr 0"
  using C7_FindWinner_first_reported
    [of "[\<lparr>FindWinner = (\<lambda>b. 0), IsWinningTurn = (\<lambda>b t. False)\<rparr>]" "[]"
        "[\<lparr>FindWinner = (\<lambda>b. 0), IsWinningTurn = (\<lambda>b t. False)\<rparr>]"
        "\<lparr>FindWinner = (\<lambda>b. 7), IsWinningTurn = (\<lambda>b t. False)\<rparr>"
        "[\<lparr>FindWinner = (\<lambda>b. PlayerOne), IsWinningTurn = (\<lambda>b t. False)\<rparr>]"]
  by (simp add: IsValid_def PlayerOne_def PlayerTwo_def)

section \<open>Turn submission\<close>

text \<open>
  Claim C1.  In a well-formed game awaiting a turn, a turn that is in bounds, by a
  valid player who is on move, on an empty cell and not a human move for the bot's
  player is accepted by \<^verbatim>\<open>Play\<close>: the player is written into the cell (assigned
  through the game's board, so that the cell holds the player afterwards; on a board
  whose rows lie apart no other cell changes), the turn is appended to the history, and
  then, in this order, the game is won by the turn's player if the conditions report a
  winning turn, drawn with no player if the history has reached size squared, and
  otherwise still awaiting a turn of the other player.
\<close>

theorem C1_play_accepted:
  assumes wf: "wf_game g" and st: "state g = StateAwaitingTurn"
    and row: "Row (Cell t) < size_g g" and col: "Column (Cell t) < size_g g"
    and valid: "IsValid (Player t)" and onmove: "Player t = player g"
    and empty: "getCell (board g) (Cell t) = 0"
    and human: "bot g = None \<or> bot_Player (the (bot g)) \<noteq> Player t"
  shows "\<exists>g'. Play g t = (g', state g', player g', None) \<and>
           gboard g' = assign (gboard g) (Cell t) (Player t) \<and>
           (ownRows (gboard g) \<longrightarrow> board g' = setCell (board g) (Cell t) (Player t)) \<and>
           getCell (board g') (Cell t) = Player t \<and>
           turns g' = turns g @ [t] \<and>
           (if Conditions_IsWinningTurn (conditions g) (board g') t
              then state g' = StateWon \<and> player g' = Player t
            else if int (length (turns g')) \<ge> (int (unat (size_g g)))\<^sup>2
              then state g' = StateDraw \<and> player g' = 0
            else state g' = StateAwaitingTurn \<and> player g' = Next (Player t) \<and>
                 Next (Player t) \<noteq> Player t \<and> IsValid (Next (Player t)))"
proof -
  have vb: "validateBounds g (Cell t) = None"
    using row col by (simp add: validateBounds_def not_le)
  have vt: "validateTurn g t False = None"
    using st valid onmove empty human by (auto simp: validateTurn_def)
  have sq: "square (unat (size_g g)) (deref (gboard g))"
    using wf by (simp add: wf_game_def board_def)
  have r: "unat (Row (Cell t)) < length (rowRefs (gboard g))"
    using sq row by (simp add: square_def word_less_nat_alt)
  have "length (deref (gboard g) ! unat (Row (Cell t))) = unat (size_g g)"
    using sq row by (intro square_nth) (simp_all add: word_less_nat_alt)
  then have c: "unat (Column (Cell t)) < snd (rowRefs (gboard g) ! unat (Row (Cell t)))"
    using r col by (simp add: word_less_nat_alt)
  have get: "getCell (deref (assign (gboard g) (Cell t) (Player t))) (Cell t) = Player t"
    using r c by (rule getCell_assign)
  have own: "ownRows (gboard g) \<longrightarrow>
               deref (assign (gboard g) (Cell t) (Player t)) = setCell (board g) (Cell t) (Player t)"
    by (simp add: board_assign)
  have mt: "maxTurns g = (int (unat (size_g g)))\<^sup>2"
    using wf by (simp add: wf_game_def power2_eq_square)
  show ?thesis
    using vb vt get own mt onmove st IsValid_Next [OF valid]
    by (simp add: Play_def play_def Let_def)
qed

theorem C1_play_accepted_witness:
  "wf_game freshGame \<and> state freshGame = StateAwaitingTurn \<and> ownRows (gboard freshGame) \<and>
   (\<exists>g'. Play freshGame \<lparr>Cell = \<lparr>Column = 1, Row = 2\<rparr>, Player = PlayerOne\<rparr>
            = (g', StateAwaitingTurn, PlayerTwo, None) \<and>
          board g' = [[0, 0, 0], [0, 0, 0], [0, PlayerOne, 0]] \<and>
          turns g' = [\<lparr>Cell = \<lparr>Column = 1, Row = 2\<rparr>, Player = PlayerOne\<rparr>]) \<and>
   wf_game rowGame \<and> state rowGame = StateAwaitingTurn \<and> ownRows (gboard rowGame) \<and>
   (\<exists>g'. Play rowGame \<lparr>Cell = \<lparr>Column = 2, Row = 0\<rparr>, Player = PlayerOne\<rparr>
            = (g', StateWon, PlayerOne, None) \<and>
          board g' = [[1, 1, 1], [2, 2, 0], [0, 0, 0]]) \<and>
   wf_game lastCellGame \<and> state lastCellGame = StateAwaitingTurn \<and>
   ownRows (gboard lastCellGame) \<and>
   (\<exists>g'. Play lastCellGame \<lparr>Cell = \<lparr>Column = 2, Row = 2\<rparr>, Player = PlayerOne\<rparr>
            = (g', StateDraw, 0, None) \<and>
          board g' = [[1, 2, 1], [1, 2, 2], [2, 1, 1]] \<and> length (turns g') = 9)"
proof -
  let ?t = "\<lparr>Cell = \<lparr>Column = 1, Row = 2\<rparr>, Player = PlayerOne\<rparr>"
  have h: "state freshGame = StateAwaitingTurn" "Row (Cell ?t) < size_g freshGame"
    "Column (Cell ?t) < size_g freshGame" "IsValid (Player ?t)"
    "Player ?t = player freshGame" "getCell (board freshGame) (Cell ?t) = 0"
    "bot freshGame = None \<or> bot_Player (the (bot freshGame)) \<noteq> Player ?t"
    by (simp_all add: board_freshGame IsValid_def getCell_def) (simp_all add: freshGame_def)
  have nowin: "\<not> Conditions_IsWinningTurn standardConditions
                   [[0, 0, 0], [0, 0, 0], [0, PlayerOne, 0]] ?t"
    by (simp add: standardConditions_def horizontalCondition_def verticalCondition_def
          diagonalCondition_def horizontal_IsWinningTurn_def vertical_IsWinningTurn_def
          diagonal_IsWinningTurn_def PlayerOne_def)
  have b: "setCell (board freshGame) (Cell ?t) (Player ?t)
             = [[0, 0, 0], [0, 0, 0], [0, PlayerOne, 0]]"
    by (simp add: board_freshGame setCell_def)
  have c: "conditions freshGame = standardConditions" "turns freshGame = []"
    "size_g freshGame = 3"
    by (simp_all add: freshGame_def)
  from C1_play_accepted [OF wf_freshGame h]
  obtain g' where g': "Play freshGame ?t = (g', state g', player g', None)"
      "ownRows (gboard freshGame) \<longrightarrow> board g' = setCell (board freshGame) (Cell ?t) (Player ?t)"
      "turns g' = turns freshGame @ [?t]"
      "if Conditions_IsWinningTurn (conditions freshGame) (board g') ?t
         then state g' = StateWon \<and> player g' = Player ?t
       else if int (length (turns g')) \<ge> (int (unat (size_g freshGame)))\<^sup>2
         then state g' = StateDraw \<and> player g' = 0
       else state g' = StateAwaitingTurn \<and> player g' = Next (Player ?t) \<and>
            Next (Player ?t) \<noteq> Player ?t \<and> IsValid (Next (Player ?t))"
    by blast
  from g'(2) ownRows_freshGame b
  have bg: "board g' = [[0, 0, 0], [0, 0, 0], [0, PlayerOne, 0]]" by simp
  have "state g' = StateAwaitingTurn \<and> player g' = PlayerTwo"
    using g'(4) nowin unfolding bg g'(3) c
    by (simp add: Next_def PlayerOne_def PlayerTwo_def)
  with g' bg c have first: "\<exists>g'. Play freshGame ?t = (g', StateAwaitingTurn, PlayerTwo, None) \<and>
          board g' = [[0, 0, 0], [0, 0, 0], [0, PlayerOne, 0]] \<and> turns g' = [?t]"
    by auto

  let ?w = "\<lparr>Cell = \<lparr>Column = 2, Row = 0\<rparr>, Player = PlayerOne\<rparr>"
  have bw: "board rowGame = [[1, 1, 0], [2, 2, 0], [0, 0, 0]]"
    by (simp add: rowGame_def)
  have wfw: "wf_game rowGame"
    by (simp add: wf_game_def bw square_def) (simp add: rowGame_def)
  have ownw: "ownRows (gboard rowGame)" by (simp add: rowGame_def)
  have hw: "state rowGame = StateAwaitingTurn" "Row (Cell ?w) < size_g rowGame"
    "Column (Cell ?w) < size_g rowGame" "IsValid (Player ?w)"
    "Player ?w = player rowGame" "getCell (board rowGame) (Cell ?w) = 0"
    "bot rowGame = None \<or> bot_Player (the (bot rowGame)) \<noteq> Player ?w"
    by (simp_all add: bw IsValid_def getCell_def) (simp_all add: rowGame_def)
  have win: "Conditions_IsWinningTurn standardConditions [[1, 1, 1], [2, 2, 0], [0, 0, 0]] ?w"
    by (simp add: standardConditions_def horizontalCondition_def horizontal_IsWinningTurn_def
          findWinnerFromRow_def PlayerOne_def)
  have sw: "setCell (board rowGame) (Cell ?w) (Player ?w) = [[1, 1, 1], [2, 2, 0], [0, 0, 0]]"
    by (simp add: bw setCell_def PlayerOne_def)
  have cw: "conditions rowGame = standardConditions" by (simp add: rowGame_def)
  from C1_play_accepted [OF wfw hw]
  obtain gw where gw: "Play rowGame ?w = (gw, state gw, player gw, None)"
      "ownRows (gboard rowGame) \<longrightarrow> board gw = setCell (board rowGame) (Cell ?w) (Player ?w)"
      "if Conditions_IsWinningTurn (conditions rowGame) (board gw) ?w
         then state gw = StateWon \<and> player gw = Player ?w
       else if int (length (turns gw)) \<ge> (int (unat (size_g rowGame)))\<^sup>2
         then state gw = StateDraw \<and> player gw = 0
       else state gw = StateAwaitingTurn \<and> player gw = Next (Player ?w) \<and>
            Next (Player ?w) \<noteq> Player ?w \<and> IsValid (Next (Player ?w))"
    by blast
  from gw(2) ownw sw have bgw: "board gw = [[1, 1, 1], [2, 2, 0], [0, 0, 0]]" by simp
  have "state gw = StateWon \<and> player gw = PlayerOne"
    using gw(3) win unfolding bgw cw by simp
  with gw bgw have second: "\<exists>g'. Play rowGame ?w = (g', StateWon, PlayerOne, None) \<and>
          board g' = [[1, 1, 1], [2, 2, 0], [0, 0, 0]]"
    by auto

  let ?d = "\<lparr>Cell = \<lparr>Column = 2, Row = 2\<rparr>, Player = PlayerOne\<rparr>"
  have bd: "board lastCellGame = [[1, 2, 1], [1, 2, 2], [2, 1, 0]]"
    by (simp add: lastCellGame_def)
  have wfd: "wf_game lastCellGame"
    by (simp add: wf_game_def bd square_def) (simp add: lastCellGame_def)
  have ownd: "ownRows (gboard lastCellGame)" by (simp add: lastCellGame_def)
  have hd: "state lastCellGame = StateAwaitingTurn" "Row (Cell ?d) < size_g lastCellGame"
    "Column (Cell ?d) < size_g lastCellGame" "IsValid (Player ?d)"
    "Player ?d = player lastCellGame" "getCell (board lastCellGame) (Cell ?d) = 0"
    "bot lastCellGame = None \<or> bot_Player (the (bot lastCellGame)) \<noteq> Player ?d"
    by (simp_all add: bd IsValid_def getCell_def) (simp_all add: lastCellGame_def)
  have nowind: "\<not> Conditions_IsWinningTurn standardConditions
                    [[1, 2, 1], [1, 2, 2], [2, 1, 1]] ?d"
    by (simp add: standardConditions_def horizontalCondition_def verticalCondition_def
          diagonalCondition_def horizontal_IsWinningTurn_def vertical_IsWinningTurn_def
          diagonal_IsWinningTurn_def findWinnerFromRow_def findWinnerFromCol_def
          isWinningTurnFromLeft_def isWinningTurnFromRight_def findWinnerFromLeft_def
          findWinnerFromRight_def PlayerOne_def)
  have sd: "setCell (board lastCellGame) (Cell ?d) (Player ?d) = [[1, 2, 1], [1, 2, 2], [2, 1, 1]]"
    by (simp add: bd setCell_def PlayerOne_def)
  have cd: "conditions lastCellGame = standardConditions" "size_g lastCellGame = 3"
    "length (turns lastCellGame) = 8"
    by (simp_all add: lastCellGame_def)
  from C1_play_accepted [OF wfd hd]
  obtain gd where gd: "Play lastCellGame ?d = (gd, state gd, player gd, None)"
      "ownRows (gboard lastCellGame) \<longrightarrow>
         board gd = setCell (board lastCellGame) (Cell ?d) (Player ?d)"
      "turns gd = turns lastCellGame @ [?d]"
      "if Conditions_IsWinningTurn (conditions lastCellGame) (board gd) ?d
         then state gd = StateWon \<and> player gd = Player ?d
       else if int (length (turns gd)) \<ge> (int (unat (size_g lastCellGame)))\<^sup>2
         then state gd = StateDraw \<and> player gd = 0
       else state gd = StateAwaitingTurn \<and> player gd = Next (Player ?d) \<and>
            Next (Player ?d) \<noteq> Player ?d \<and> IsValid (Next (Player ?d))"
    by blast
  from gd(2) ownd sd have bgd: "board gd = [[1, 2, 1], [1, 2, 2], [2, 1, 1]]" by simp
  have ld: "length (turns gd) = 9" using gd(3) cd(3) by simp
  have "state gd = StateDraw \<and> player gd = 0"
    using gd(4) nowind ld unfolding bgd cd(1,2) by simp
  with gd(1) bgd ld have third: "\<exists>g'. Play lastCellGame ?d = (g', StateDraw, 0, None) \<and>
          board g' = [[1, 2, 1], [1, 2, 2], [2, 1, 1]] \<and> length (turns g') = 9"
    by auto
  from first second third wf_freshGame h(1) ownRows_freshGame wfw hw(1) ownw wfd hd(1) ownd
  show ?thesis by blast
qed

text \<open>
  Claim C2.  Whenever the cell is out of bounds, the game is not awaiting a turn, the
  player is invalid or not on move, the cell is occupied, or the turn is a human move
  for the bot's player, \<^verbatim>\<open>Play\<close> returns an error; and whenever \<^verbatim>\<open>Play\<close> returns an
  error, the game (board, turn history, state, player and all) is the game before the
  call, the state and player returned are its own, and the error is of the category of
  the first check that fails: out-of-bounds, then game-over, then player-not-found,
  then invalid-turn.
\<close>

theorem C2_play_rejected:
  "(size_g g \<le> Row (Cell t) \<or> size_g g \<le> Column (Cell t) \<or> state g \<noteq> StateAwaitingTurn \<or>
    \<not> IsValid (Player t) \<or> Player t \<noteq> player g \<or> getCell (board g) (Cell t) \<noteq> 0 \<or>
    (bot g \<noteq> None \<and> bot_Player (the (bot g)) = Player t)
      \<longrightarrow> (\<exists>e. Play g t = (g, state g, player g, Some e))) \<and>
   (\<forall>g' st' pl' e. Play g t = (g', st', pl', Some e) \<longrightarrow>
      g' = g \<and> st' = state g \<and> pl' = player g \<and>
      (category_of e = OutOfBounds \<and> (size_g g \<le> Row (Cell t) \<or> size_g g \<le> Column (Cell t)) \<or>
       category_of e = GameOver \<and> Row (Cell t) < size_g g \<and> Column (Cell t) < size_g g \<and>
         state g \<noteq> StateAwaitingTurn \<or>
       category_of e = PlayerNotFound \<and> Row (Cell t) < size_g g \<and> Column (Cell t) < size_g g \<and>
         state g = StateAwaitingTurn \<and> \<not> IsValid (Player t) \<or>
       category_of e = InvalidTurn \<and> Row (Cell t) < size_g g \<and> Column (Cell t) < size_g g \<and>
         state g = StateAwaitingTurn \<and> IsValid (Player t) \<and>
         ((bot g \<noteq> None \<and> bot_Player (the (bot g)) = Player t) \<or> Player t \<noteq> player g \<or>
          getCell (board g) (Cell t) \<noteq> 0)))"
  by (auto simp: Play_def play_def validateBounds_def validateTurn_def word_gt_0 Let_def not_le
           split: if_splits option.splits)

theorem C2_play_rejected_witness:
  "Play freshGame \<lparr>Cell = \<lparr>Column = 1, Row = 2\<rparr>, Player = PlayerTwo\<rparr>
     = (freshGame, StateAwaitingTurn, PlayerOne, Some (ErrTurnInvalid WrongPlayer)) \<and>
   (\<exists>e. Play freshGame \<lparr>Cell = \<lparr>Column = 3, Row = 2\<rparr>, Player = PlayerOne\<rparr>
           = (freshGame, StateAwaitingTurn, PlayerOne, Some e) \<and> category_of e = OutOfBounds)"
proof -
  let ?t = "\<lparr>Cell = \<lparr>Column = 3, Row = 2\<rparr>, Player = PlayerOne\<rparr>"
  have oob: "size_g freshGame \<le> Column (Cell ?t)" "Row (Cell ?t) < size_g freshGame"
    "state freshGame = StateAwaitingTurn" "IsValid (Player ?t)" "player freshGame = PlayerOne"
    by (simp_all add: freshGame_def IsValid_def)
  from C2_play_rejected [of freshGame ?t] oob
  obtain e where e: "Play freshGame ?t = (freshGame, state freshGame, player freshGame, Some e)"
    by blast
  with C2_play_rejected [of freshGame ?t] oob have "category_of e = OutOfBounds"
    by auto
  moreover have "Play freshGame \<lparr>Cell = \<lparr>Column = 1, Row = 2\<rparr>, Player = PlayerTwo\<rparr>
     = (freshGame, StateAwaitingTurn, PlayerOne, Some (ErrTurnInvalid WrongPlayer))"
    by (simp add: Play_def play_def validateBounds_def validateTurn_def freshGame_def
          IsValid_def PlayerOne_def PlayerTwo_def word_le_nat_alt)
  ultimately show ?thesis using e oob by auto
qed

section \<open>The impossible bot and the board size\<close>

text \<open>
  Claim C3, as stated, fails: \<^verbatim>\<open>Start(WithSize(4), WithImpossibleBot(PlayerTwo))\<close>
  returns a game, not an error.
\<close>

theorem C3_counterexample:
  "\<not> isl (Start [WithSize 4, WithImpossibleBot PlayerTwo])"
  by (simp add: Start_def draft_def applyWithSize_def withBot_def NewImpossibleBot_def
        MinSize_def MaxSize_def IsValid_def PlayerTwo_def PlayerOne_def Let_def)

text \<open>
  Claim C3, amended.  For every size \<open>N\<close> above 3 and every valid player \<open>p\<close>,
  \<^verbatim>\<open>Start(WithSize(N), WithImpossibleBot(p))\<close> succeeds with a game of size \<open>N\<close> that
  holds the impossible bot: the library's bot options check the bot's player only.
  The bound of 3 is enforced by the command-line front end, which rejects the size
  flag for the impossible bot before a game is constructed.
\<close>

theorem C3_impossible_size_cli_only:
  assumes "3 < N" and "IsValid p"
  shows "Start [WithSize N, WithImpossibleBot p] =
           Inr \<lparr>gboard = newBoard N, conditions = standardConditions,
                maxTurns = int (unat N) * int (unat N), player = PlayerOne, size_g = N,
                state = StateAwaitingTurn, turns = [], bot = Some (ImpossibleBot p)\<rparr> \<and>
         (\<forall>playerFlag \<in> {1, 2}. main_pack playerFlag (unat N) ''impossible''
            = Inl (''size'', ''bot max board size exceeded''))"
proof -
  have n3: "\<not> N < 3" using assms(1) by (simp add: not_less less_imp_le)
  have le: "unat N \<le> 255" using unsigned_less [of N, where 'a = nat] by simp
  have ge: "\<not> unat N < 3" using n3 by (simp add: word_less_nat_alt)
  have le': "N \<le> 255" using le by (simp add: word_le_nat_alt)
  have "Start [WithSize N, WithImpossibleBot p] =
           Inr \<lparr>gboard = newBoard N, conditions = standardConditions,
                maxTurns = int (unat N) * int (unat N), player = PlayerOne, size_g = N,
                state = StateAwaitingTurn, turns = [], bot = Some (ImpossibleBot p)\<rparr>"
    using n3 le' assms(2)
    by (simp add: Start_def draft_def applyWithSize_def withBot_def NewImpossibleBot_def
          MinSize_def MaxSize_def Let_def not_less)
  moreover have "main_pack playerFlag (unat N) ''impossible''
            = Inl (''size'', ''bot max board size exceeded'')" if "playerFlag \<in> {1, 2}" for playerFlag
    using that le ge assms(1)
    by (auto simp: main_pack_def main_bot_def MinSize_def MaxSize_def MaxSizeImpossible_def)
  ultimately show ?thesis by blast
qed

theorem C3_impossible_size_cli_only_witness:
  "Start [WithSize 4, WithImpossibleBot PlayerTwo] =
     Inr \<lparr>gboard = newBoard 4, conditions = standardConditions, maxTurns = 16,
          player = PlayerOne, size_g = 4, state = StateAwaitingTurn, turns = [],
          bot = Some (ImpossibleBot PlayerTwo)\<rparr> \<and>
   main_pack 1 4 ''impossible'' = Inl (''size'', ''bot max board size exceeded'')"
proof -
  have h: "(3 :: 8 word) < 4" "IsValid PlayerTwo"
    by (simp_all add: IsValid_def)
  show ?thesis using C3_impossible_size_cli_only [OF h] by simp
qed

section \<open>Validation of a preset board\<close>

lemma check_cols_isl:
  "isl (check_cols row col ps ts tc) \<longleftrightarrow> (\<exists>p \<in> set ps. p \<noteq> 0 \<and> \<not> IsValid p)"
  by (induction ps arbitrary: col ts tc) auto

lemma check_cols_Inr:
  "check_cols row col ps ts tc = Inr (ts', tc') \<Longrightarrow>
   ts' = ts @ occupiedRow row col ps \<and>
   (\<forall>q. q \<noteq> 0 \<longrightarrow> tc' q = tc q + of_nat (count_list ps q))"
proof (induction ps arbitrary: col ts tc)
  case Nil
  then show ?case by (simp add: occupiedRow_def)
next
  case (Cons p ps)
  show ?case
  proof (cases "p = 0")
    case True
    with Cons.prems have "check_cols row (Suc col) ps ts tc = Inr (ts', tc')" by simp
    from Cons.IH [OF this] True show ?thesis
      by (simp add: occupiedRow_def enumerate_Suc_eq)
  next
    case False
    with Cons.prems have v: "IsValid p" by (simp split: if_splits)
    with Cons.prems False have
      "check_cols row (Suc col) ps
         (ts @ [\<lparr>Cell = \<lparr>Column = of_nat col, Row = of_nat row\<rparr>, Player = p\<rparr>])
         (tc(p := tc p + 1)) = Inr (ts', tc')" by simp
    from Cons.IH [OF this] False show ?thesis
      by (auto simp: occupiedRow_def)
  qed
qed

lemma check_rows_isl:
  "isl (check_rows sz row rows ts tc) \<longleftrightarrow>
     (\<exists>cols \<in> set rows. length cols \<noteq> unat sz) \<or>
     (\<exists>cols \<in> set rows. \<exists>p \<in> set cols. p \<noteq> 0 \<and> \<not> IsValid p)"
proof (induction rows arbitrary: row ts tc)
  case Nil
  show ?case by simp
next
  case (Cons cols rest)
  show ?case
  proof (cases "length cols \<noteq> unat sz")
    case True
    then show ?thesis by simp
  next
    case len: False
    show ?thesis
    proof (cases "check_cols row 0 cols ts tc")
      case (Inl e)
      then have "isl (check_cols row 0 cols ts tc)" by simp
      then have "\<exists>p \<in> set cols. p \<noteq> 0 \<and> \<not> IsValid p" by (simp add: check_cols_isl)
      with Inl len show ?thesis by auto
    next
      case (Inr r)
      then have "\<not> isl (check_cols row 0 cols ts tc)" by simp
      then have ok: "\<not> (\<exists>p \<in> set cols. p \<noteq> 0 \<and> \<not> IsValid p)" by (simp add: check_cols_isl)
      obtain ts1 tc1 where r: "r = (ts1, tc1)" by (cases r)
      show ?thesis using Inr r len ok Cons.IH [of "Suc row" ts1 tc1] by auto
    qed
  qed
qed

lemma check_rows_Inr:
  "check_rows sz row rows ts tc = Inr (ts', tc') \<Longrightarrow>
   ts' = ts @ occupiedFrom row rows \<and>
   (\<forall>q. q \<noteq> 0 \<longrightarrow> tc' q = tc q + of_nat (count_list (concat rows) q))"
proof (induction rows arbitrary: row ts tc)
  case Nil
  then show ?case by (simp add: occupiedFrom_def)
next
  case (Cons cols rest)
  from Cons.prems obtain ts1 tc1 where
    c: "check_cols row 0 cols ts tc = Inr (ts1, tc1)" and
    r: "check_rows sz (Suc row) rest ts1 tc1 = Inr (ts', tc')"
    by (auto split: if_splits sum.splits)
  from check_cols_Inr [OF c] Cons.IH [OF r] show ?case
    by (simp add: occupiedFrom_def add.assoc)
qed

lemma count_list_le_length: "count_list xs x \<le> length xs"
  by (induction xs) auto

lemma length_concat_square: "\<forall>cols \<in> set b. length cols = n \<Longrightarrow> length (concat b) = length b * n"
  by (induction b) auto

lemma marks_bound:
  assumes "length b \<le> 255" and "\<forall>cols \<in> set b. length cols = length b"
  shows "marks b p < 65536"
proof -
  have "marks b p \<le> length (concat b)" by (simp add: marks_def count_list_le_length)
  also have "\<dots> = length b * length b" using assms(2) by (rule length_concat_square)
  also have "\<dots> \<le> 255 * 255" using assms(1) by (intro mult_le_mono)
  finally show ?thesis by simp
qed

lemma check_Inl_iff: "isl (check b) \<longleftrightarrow> presetInvalid b"
proof (cases "length b < 3 \<or> length b > 255")
  case True
  then show ?thesis by (auto simp: check_def presetInvalid_def)
next
  case False
  then have len: "3 \<le> length b" "length b \<le> 255" by auto
  then have sz: "unat (of_nat (length b) :: 8 word) = length b"
    by (simp add: unat_of_nat)
  show ?thesis
  proof (cases "check_rows (of_nat (length b)) 0 b [] (\<lambda>_. 0)")
    case (Inl e)
    then have "isl (check_rows (of_nat (length b)) 0 b [] (\<lambda>_. 0))" by simp
    then have "(\<exists>cols \<in> set b. length cols \<noteq> length b) \<or>
     (\<exists>cols \<in> set b. \<exists>p \<in> set cols. p \<noteq> 0 \<and> \<not> IsValid p)"
      unfolding check_rows_isl sz .
    with Inl len show ?thesis by (auto simp: check_def presetInvalid_def)
  next
    case (Inr r)
    then have "\<not> isl (check_rows (of_nat (length b)) 0 b [] (\<lambda>_. 0))" by simp
    then have ok: "\<forall>cols \<in> set b. length cols = length b"
      "\<not> (\<exists>cols \<in> set b. \<exists>p \<in> set cols. p \<noteq> 0 \<and> \<not> IsValid p)"
      unfolding check_rows_isl sz by auto
    obtain ts tc where r: "r = (ts, tc)" by (cases r)
    from check_rows_Inr [OF Inr [unfolded r]]
    have tc: "tc PlayerOne = of_nat (marks b PlayerOne)" "tc PlayerTwo = of_nat (marks b PlayerTwo)"
      by (simp_all add: marks_def PlayerOne_def PlayerTwo_def)
    have "unat (tc PlayerOne) = marks b PlayerOne" "unat (tc PlayerTwo) = marks b PlayerTwo"
      using marks_bound [OF len(2) ok(1)] by (simp_all add: tc unat_of_nat)
    then have u: "uint (tc PlayerOne) = int (marks b PlayerOne)"
      "uint (tc PlayerTwo) = int (marks b PlayerTwo)"
      by (simp_all add: uint_nat)
    show ?thesis using Inr r len ok u
      by (auto simp: check_def presetInvalid_def Let_def)
  qed
qed

lemma check_Inr:
  assumes "\<not> presetInvalid b"
  shows "check b =
     Inr (if marks b PlayerOne = marks b PlayerTwo + 1 then PlayerTwo
          else if marks b PlayerTwo = marks b PlayerOne + 1 then PlayerOne else 0,
          of_nat (length b), int (length b) * int (length b), occupiedTurns b)"
proof -
  from assms have len: "3 \<le> length b" "length b \<le> 255"
    and ok: "\<forall>cols \<in> set b. length cols = length b"
    and fair: "\<bar>int (marks b PlayerOne) - int (marks b PlayerTwo)\<bar> \<le> 1"
    by (auto simp: presetInvalid_def)
  from assms have "\<not> isl (check b)" by (simp add: check_Inl_iff)
  then obtain r where cr: "check_rows (of_nat (length b)) 0 b [] (\<lambda>_. 0) = Inr r"
    using len by (auto simp: check_def Let_def split: sum.splits)
  obtain ts tc where r: "r = (ts, tc)" by (cases r)
  from check_rows_Inr [OF cr [unfolded r]]
  have ts: "ts = occupiedTurns b"
    and tc: "tc PlayerOne = of_nat (marks b PlayerOne)" "tc PlayerTwo = of_nat (marks b PlayerTwo)"
    by (simp_all add: marks_def PlayerOne_def PlayerTwo_def occupiedTurns_def)
  have "unat (tc PlayerOne) = marks b PlayerOne" "unat (tc PlayerTwo) = marks b PlayerTwo"
    using marks_bound [OF len(2) ok] by (simp_all add: tc unat_of_nat)
  then have u: "uint (tc PlayerOne) = int (marks b PlayerOne)"
    "uint (tc PlayerTwo) = int (marks b PlayerTwo)"
    by (simp_all add: uint_nat)
  show ?thesis using cr r len u ts fair
    by (auto simp: check_def Let_def)
qed

text \<open>
  Claim C6.  \<^verbatim>\<open>WithBoard(b)\<close> fails, with an invalid-option error, exactly on the boards
  that hold fewer than 3 or more than 255 rows, a row whose column count differs from
  the row count, a non-zero cell that is not a valid player, or mark counts that differ
  by more than one.  On every other board it sets the board (the caller's board itself,
  in whatever storage its rows lie), the size to the row count, the turn ceiling to size
  squared, the turn history to the occupied cells in row-major order, and the player on
  move to \<^verbatim>\<open>PlayerTwo\<close> when \<^verbatim>\<open>PlayerOne\<close> has one mark more, to \<^verbatim>\<open>PlayerOne\<close> when
  \<^verbatim>\<open>PlayerTwo\<close> has one mark more, and leaves it as it was when the counts are equal.
\<close>

theorem C6_WithBoard:
  "(presetInvalid (deref bv) \<longrightarrow>
      (\<exists>e. apply_option (WithBoard bv) g = Inl e \<and> category_of e = InvalidOption)) \<and>
   (\<not> presetInvalid (deref bv) \<longrightarrow>
      apply_option (WithBoard bv) g =
        Inr (g\<lparr>gboard := bv, maxTurns := (int (length (deref bv)))\<^sup>2,
               size_g := of_nat (length (deref bv)),
               turns := occupiedTurns (deref bv),
               player := (if marks (deref bv) PlayerOne = marks (deref bv) PlayerTwo + 1
                            then PlayerTwo
                          else if marks (deref bv) PlayerTwo = marks (deref bv) PlayerOne + 1
                            then PlayerOne
                          else player g)\<rparr>) \<and>
      unat (of_nat (length (deref bv)) :: 8 word) = length (deref bv))"
proof (cases "presetInvalid (deref bv)")
  case True
  then have "isl (check (deref bv))" by (simp add: check_Inl_iff)
  then obtain e where "check (deref bv) = Inl e" by (cases "check (deref bv)") auto
  with True show ?thesis by (simp add: applyWithBoard_def)
next
  case False
  then have "length (deref bv) \<le> 255" by (auto simp: presetInvalid_def)
  then have "unat (of_nat (length (deref bv)) :: 8 word) = length (deref bv)"
    by (simp add: unat_of_nat del: length_deref)
  with False check_Inr [OF False] show ?thesis
    by (auto simp: applyWithBoard_def power2_eq_square PlayerOne_def PlayerTwo_def Let_def
             simp del: length_deref)
qed

theorem C6_WithBoard_witness:
  "apply_option (WithBoard (alloc [[1, 1, 0], [2, 0, 0], [0, 0, 0]])) draft =
     Inr (draft\<lparr>gboard := alloc [[1, 1, 0], [2, 0, 0], [0, 0, 0]], maxTurns := 9, size_g := 3,
               turns := [\<lparr>Cell = \<lparr>Column = 0, Row = 0\<rparr>, Player = 1\<rparr>,
                         \<lparr>Cell = \<lparr>Column = 1, Row = 0\<rparr>, Player = 1\<rparr>,
                         \<lparr>Cell = \<lparr>Column = 0, Row = 1\<rparr>, Player = 2\<rparr>],
               player := PlayerTwo\<rparr>) \<and>
   isl (apply_option (WithBoard (alloc [[1, 1, 0], [1, 0, 0], [0, 0, 0]])) draft)"
proof -
  have ok: "\<not> presetInvalid (deref (alloc [[1, 1, 0], [2, 0, 0], [0, 0, 0]]))"
    by (simp add: presetInvalid_def marks_def IsValid_def PlayerOne_def PlayerTwo_def)
  have bad: "presetInvalid (deref (alloc [[1, 1, 0], [1, 0, 0], [0, 0, 0]]))"
    by (simp add: presetInvalid_def marks_def IsValid_def PlayerOne_def PlayerTwo_def)
  have m: "marks [[1, 1, 0], [2, 0, 0], [0, 0, 0]] PlayerOne = 2"
    "marks [[1, 1, 0], [2, 0, 0], [0, 0, 0]] PlayerTwo = 1"
    by (simp_all add: marks_def PlayerOne_def PlayerTwo_def)
  have t: "occupiedTurns [[1, 1, 0], [2, 0, 0], [0, 0, 0]] =
             [\<lparr>Cell = \<lparr>Column = 0, Row = 0\<rparr>, Player = 1\<rparr>,
              \<lparr>Cell = \<lparr>Column = 1, Row = 0\<rparr>, Player = 1\<rparr>,
              \<lparr>Cell = \<lparr>Column = 0, Row = 1\<rparr>, Player = 2\<rparr>]"
    by (simp add: occupiedTurns_def occupiedFrom_def occupiedRow_def enumerate_Suc_eq)
  from C6_WithBoard [of "alloc [[1, 1, 0], [2, 0, 0], [0, 0, 0]]" draft] ok
  have "apply_option (WithBoard (alloc [[1, 1, 0], [2, 0, 0], [0, 0, 0]])) draft =
     Inr (draft\<lparr>gboard := alloc [[1, 1, 0], [2, 0, 0], [0, 0, 0]], maxTurns := 9, size_g := 3,
               turns := [\<lparr>Cell = \<lparr>Column = 0, Row = 0\<rparr>, Player = 1\<rparr>,
                         \<lparr>Cell = \<lparr>Column = 1, Row = 0\<rparr>, Player = 1\<rparr>,
                         \<lparr>Cell = \<lparr>Column = 0, Row = 1\<rparr>, Player = 2\<rparr>],
               player := PlayerTwo\<rparr>)"
    unfolding deref_alloc m t by simp
  moreover from C6_WithBoard [of "alloc [[1, 1, 0], [1, 0, 0], [0, 0, 0]]" draft] bad
  have "isl (apply_option (WithBoard (alloc [[1, 1, 0], [1, 0, 0], [0, 0, 0]])) draft)"
    by auto
  ultimately show ?thesis by simp
qed

section \<open>The invariant of a game\<close>

lemma filter_update_count:
  assumes "j < length r" and "\<not> P (r ! j)" and "P p"
  shows "length (filter P (r[j := p])) = Suc (length (filter P r))"
proof -
  have "r = take j r @ r ! j # drop (Suc j) r" using assms(1) by (rule id_take_nth_drop)
  then have "length (filter P r) = length (filter P (take j r)) + length (filter P (drop (Suc j) r))"
    using assms(2) by (metis filter.simps(2) filter_append length_append)
  moreover have "r[j := p] = take j r @ p # drop (Suc j) r" using assms(1) by (rule upd_conv_take_nth_drop)
  ultimately show ?thesis using assms(3) by simp
qed

lemma occupiedCount_setCell:
  assumes "unat (Row c) < length b" and "unat (Column c) < length (b ! unat (Row c))"
    and "getCell b c = 0" and "p \<noteq> 0"
  shows "occupiedCount (setCell b c p) = Suc (occupiedCount b)"
proof -
  let ?i = "unat (Row c)" and ?j = "unat (Column c)"
  let ?P = "\<lambda>p :: player. p \<noteq> 0"
  have r: "length (filter ?P ((b ! ?i)[?j := p])) = Suc (length (filter ?P (b ! ?i)))"
    using assms by (intro filter_update_count) (simp_all add: getCell_def)
  have b1: "b = take ?i b @ b ! ?i # drop (Suc ?i) b" using assms(1) by (rule id_take_nth_drop)
  have "concat b = concat (take ?i b) @ b ! ?i @ concat (drop (Suc ?i) b)"
    by (subst b1) simp
  then have c1: "occupiedCount b = length (filter ?P (concat (take ?i b))) +
      length (filter ?P (b ! ?i)) + length (filter ?P (concat (drop (Suc ?i) b)))"
    by (simp add: occupiedCount_def)
  have "setCell b c p = take ?i b @ (b ! ?i)[?j := p] # drop (Suc ?i) b"
    unfolding setCell_def using assms(1) by (rule upd_conv_take_nth_drop)
  then have "occupiedCount (setCell b c p) = length (filter ?P (concat (take ?i b))) +
      length (filter ?P ((b ! ?i)[?j := p])) + length (filter ?P (concat (drop (Suc ?i) b)))"
    by (simp add: occupiedCount_def)
  with c1 r show ?thesis by simp
qed

lemma getCell_setCell_other:
  "c' \<noteq> c \<Longrightarrow> getCell (setCell b c p) c' = getCell b c'"
proof -
  assume ne: "c' \<noteq> c"
  then have d: "unat (Row c') \<noteq> unat (Row c) \<or> unat (Column c') \<noteq> unat (Column c)"
    by (cases c, cases c') (auto simp: word_unat_eq_iff)
  show ?thesis
  proof (cases "unat (Row c') = unat (Row c)")
    case False
    then show ?thesis by (simp add: getCell_def setCell_def)
  next
    case True
    with d have col: "unat (Column c') \<noteq> unat (Column c)" by simp
    show ?thesis
    proof (cases "unat (Row c) < length b")
      case True
      with \<open>unat (Row c') = unat (Row c)\<close> col show ?thesis by (simp add: getCell_def setCell_def)
    next
      case False
      then show ?thesis by (simp add: getCell_def setCell_def list_update_beyond)
    qed
  qed
qed

text \<open>A call of \<^verbatim>\<open>play\<close> leaves the rows of the board where they are.\<close>

lemma play_rowRefs:
  assumes "play g t a = (g', st, pl, err)"
  shows "rowRefs (gboard g') = rowRefs (gboard g)"
  using assms
  by (auto simp: play_def Let_def split: if_splits option.splits)

lemma play_ownRows:
  assumes "play g t a = (g', st, pl, err)"
  shows "ownRows (gboard g') = ownRows (gboard g)"
  using play_rowRefs [OF assms] by (simp add: ownRows_def)

text \<open>
  The two outcomes of \<^verbatim>\<open>play\<close> on a board whose rows lie apart: the turn is rejected
  and the game is as before, or it is accepted and the one cell is written.
\<close>

lemma play_cases:
  assumes "play g t a = (g', st, pl, err)" and "ownRows (gboard g)"
  shows "(g' = g \<and> err \<noteq> None) \<or>
         (err = None \<and> state g = StateAwaitingTurn \<and> Row (Cell t) < size_g g \<and>
          Column (Cell t) < size_g g \<and> IsValid (Player t) \<and> Player t = player g \<and>
          getCell (board g) (Cell t) = 0 \<and>
          board g' = setCell (board g) (Cell t) (Player t) \<and> turns g' = turns g @ [t] \<and>
          size_g g' = size_g g \<and> maxTurns g' = maxTurns g \<and> conditions g' = conditions g \<and>
          bot g' = bot g \<and>
          (if Conditions_IsWinningTurn (conditions g) (board g') t
             then state g' = StateWon \<and> player g' = Player t
           else if int (length (turns g')) \<ge> maxTurns g
             then state g' = StateDraw \<and> player g' = 0
           else state g' = StateAwaitingTurn \<and> player g' = Next (Player t)))"
  using assms
  by (auto simp: play_def validateBounds_def validateTurn_def word_gt_0 Let_def not_le
           board_assign
           split: if_splits option.splits)

lemma play_Inv:
  assumes inv: "Inv g" and own: "ownRows (gboard g)" and p: "play g t a = (g', st, pl, err)"
  shows "Inv g'"
proof -
  from play_cases [OF p own] show ?thesis
  proof
    assume "g' = g \<and> err \<noteq> None"
    with inv show ?thesis by simp
  next
    assume acc: "err = None \<and> state g = StateAwaitingTurn \<and> Row (Cell t) < size_g g \<and>
          Column (Cell t) < size_g g \<and> IsValid (Player t) \<and> Player t = player g \<and>
          getCell (board g) (Cell t) = 0 \<and>
          board g' = setCell (board g) (Cell t) (Player t) \<and> turns g' = turns g @ [t] \<and>
          size_g g' = size_g g \<and> maxTurns g' = maxTurns g \<and> conditions g' = conditions g \<and>
          bot g' = bot g \<and>
          (if Conditions_IsWinningTurn (conditions g) (board g') t
             then state g' = StateWon \<and> player g' = Player t
           else if int (length (turns g')) \<ge> maxTurns g
             then state g' = StateDraw \<and> player g' = 0
           else state g' = StateAwaitingTurn \<and> player g' = Next (Player t))"
    from inv have sq: "square (unat (size_g g)) (board g)"
      and mt: "maxTurns g = int (unat (size_g g)) * int (unat (size_g g))"
      and len: "length (turns g) = occupiedCount (board g)"
      and cells: "\<forall>t \<in> set (turns g). getCell (board g) (Cell t) = Player t"
      and nz: "\<forall>t \<in> set (turns g). Player t \<noteq> 0"
      by (simp_all add: Inv_def wf_game_def consistent_def)
    from acc have r: "unat (Row (Cell t)) < unat (size_g g)"
      and c: "unat (Column (Cell t)) < unat (size_g g)"
      by (simp_all add: word_less_nat_alt)
    have pnz: "Player t \<noteq> 0" using acc IsValid_nonzero by blast
    have lb: "length (board g) = unat (size_g g)" using sq by (simp add: square_def)
    have lr: "length (board g ! unat (Row (Cell t))) = unat (size_g g)"
      using sq r by (rule square_nth)
    have wf': "wf_game g'" using acc sq mt by (simp add: wf_game_def square_setCell)
    have cnt: "occupiedCount (board g') = Suc (occupiedCount (board g))"
      using acc r c lb lr pnz by (simp add: occupiedCount_setCell)
    have new: "getCell (board g') (Cell t) = Player t"
      using acc sq r c by (simp add: getCell_setCell_same)
    have old: "getCell (board g') (Cell t') = Player t'" if "t' \<in> set (turns g)" for t'
    proof -
      from that cells nz have "getCell (board g) (Cell t') = Player t'" "Player t' \<noteq> 0" by auto
      with acc have "Cell t' \<noteq> Cell t" by auto
      then show ?thesis using acc \<open>getCell (board g) (Cell t') = Player t'\<close>
        by (simp add: getCell_setCell_other)
    qed
    show ?thesis
      using wf' cnt new old acc len nz pnz by (auto simp: Inv_def consistent_def)
  qed
qed

section \<open>Construction establishes the invariant\<close>

lemma length_occupiedRow: "length (occupiedRow row col ps) = length (filter (\<lambda>p. p \<noteq> 0) ps)"
  unfolding occupiedRow_def by (induction ps arbitrary: col) simp_all

lemma length_occupiedFrom: "length (occupiedFrom row b) = occupiedCount b"
  unfolding occupiedFrom_def occupiedCount_def
  by (induction b arbitrary: row) (simp_all add: length_occupiedRow)

lemma set_occupiedRow:
  "t \<in> set (occupiedRow row col ps) \<longleftrightarrow>
     (\<exists>j < length ps. ps ! j \<noteq> 0 \<and>
        t = \<lparr>Cell = \<lparr>Column = of_nat (col + j), Row = of_nat row\<rparr>, Player = ps ! j\<rparr>)"
proof (induction ps arbitrary: col)
  case Nil
  show ?case by (simp add: occupiedRow_def)
next
  case (Cons p ps)
  have step: "set (occupiedRow row col (p # ps)) =
      (if p \<noteq> 0 then {\<lparr>Cell = \<lparr>Column = of_nat col, Row = of_nat row\<rparr>, Player = p\<rparr>} else {})
      \<union> set (occupiedRow row (Suc col) ps)"
    by (simp add: occupiedRow_def)
  show ?case unfolding step
    by (auto simp: Cons.IH less_Suc_eq_0_disj)
qed

lemma set_occupiedFrom:
  "t \<in> set (occupiedFrom row b) \<longleftrightarrow>
     (\<exists>i < length b. t \<in> set (occupiedRow (row + i) 0 (b ! i)))"
proof (induction b arbitrary: row)
  case Nil
  show ?case by (simp add: occupiedFrom_def)
next
  case (Cons cols b)
  have step: "set (occupiedFrom row (cols # b)) =
      set (occupiedRow row 0 cols) \<union> set (occupiedFrom (Suc row) b)"
    by (simp add: occupiedFrom_def)
  show ?case unfolding step
    by (auto simp: Cons.IH less_Suc_eq_0_disj)
qed

lemma set_occupiedTurns:
  "t \<in> set (occupiedTurns b) \<longleftrightarrow>
     (\<exists>i < length b. \<exists>j < length (b ! i). b ! i ! j \<noteq> 0 \<and>
        t = \<lparr>Cell = \<lparr>Column = of_nat j, Row = of_nat i\<rparr>, Player = b ! i ! j\<rparr>)"
  by (simp add: occupiedTurns_def set_occupiedFrom set_occupiedRow)

lemma Inv_preset:
  assumes "\<not> presetInvalid b" and "deref bv = b"
  shows "Inv (g\<lparr>gboard := bv, maxTurns := (int (length b))\<^sup>2, size_g := of_nat (length b),
               turns := occupiedTurns b, player := p\<rparr>)"
proof -
  from assms have len: "length b \<le> 255" and sq: "\<forall>cols \<in> set b. length cols = length b"
    by (auto simp: presetInvalid_def)
  have u: "unat (of_nat (length b) :: 8 word) = length b" using len by (simp add: unat_of_nat)
  have cell: "getCell b (Cell t) = Player t \<and> Player t \<noteq> 0" if "t \<in> set (occupiedTurns b)" for t
  proof -
    from that obtain i j where ij: "i < length b" "j < length (b ! i)" "b ! i ! j \<noteq> 0"
      "t = \<lparr>Cell = \<lparr>Column = of_nat j, Row = of_nat i\<rparr>, Player = b ! i ! j\<rparr>"
      by (auto simp: set_occupiedTurns)
    have "length (b ! i) = length b" using sq ij(1) by simp
    with ij len have "unat (of_nat i :: 8 word) = i" "unat (of_nat j :: 8 word) = j"
      by (simp_all add: unat_of_nat)
    with ij show ?thesis by (simp add: getCell_def)
  qed
  show ?thesis
    using u sq cell assms(2)
    by (simp add: Inv_def wf_game_def square_def consistent_def power2_eq_square
          occupiedTurns_def length_occupiedFrom del: length_deref)
qed

lemma Inv_bot_update [simp]: "Inv (g\<lparr>bot := x\<rparr>) = Inv g"
  by (simp add: Inv_def wf_game_def consistent_def)

lemma Inv_conditions_update [simp]: "Inv (g\<lparr>conditions := x\<rparr>) = Inv g"
  by (simp add: Inv_def wf_game_def consistent_def)

lemma Inv_player_update [simp]: "Inv (g\<lparr>player := x\<rparr>) = Inv g"
  by (simp add: Inv_def wf_game_def consistent_def)

lemma Inv_state_update [simp]: "Inv (g\<lparr>state := x\<rparr>) = Inv g"
  by (simp add: Inv_def wf_game_def consistent_def)

lemma withBot_draftInv: "withBot bt name g = Inr g' \<Longrightarrow> draftInv g \<Longrightarrow> draftInv g'"
  by (auto simp: withBot_def draftInv_def split: if_splits)

lemma applyWithBoard_draftInv: "applyWithBoard bv g = Inr g' \<Longrightarrow> draftInv g'"
proof -
  let ?b = "deref bv"
  assume a: "applyWithBoard bv g = Inr g'"
  then have ok: "\<not> presetInvalid ?b"
    using check_Inl_iff [of ?b] by (cases "check ?b") (auto simp: applyWithBoard_def)
  then have ne: "?b \<noteq> []" by (auto simp: presetInvalid_def)
  from a check_Inr [OF ok] Inv_preset [OF ok refl, where g = g] ne show ?thesis
    by (auto simp: applyWithBoard_def draftInv_def Let_def power2_eq_square
             simp del: length_deref deref_eq_Nil split: if_splits)
qed

lemma applyWithSize_draftInv: "applyWithSize sz g = Inr g' \<Longrightarrow> draftInv g \<Longrightarrow> draftInv g'"
  by (auto simp: applyWithSize_def draftInv_def split: if_splits)

lemma applyWithRandomSize_draftInv:
  "applyWithRandomSize r g = Inr g' \<Longrightarrow> draftInv g \<Longrightarrow> draftInv g'"
proof -
  have "r mod 252 < 252" by simp
  then have "r mod 252 + 3 < 256" by linarith
  then have "unat (of_nat (r mod 252 + 3) :: 8 word) = r mod 252 + 3"
    unfolding unat_of_nat by simp
  then have "uint (of_nat (r mod 252 + 3) :: 8 word) = int (r mod 252 + 3)"
    by (simp only: uint_nat)
  then have "uint (of_nat (r mod 252) + 3 :: 8 word) = int (r mod 252) + 3" by simp
  then show "applyWithRandomSize r g = Inr g' \<Longrightarrow> draftInv g \<Longrightarrow> draftInv g'"
    by (auto simp: applyWithRandomSize_def draftInv_def MinSize_def MaxSize_def Let_def
             split: if_splits)
qed

lemma applyWithStarterPlayer_draftInv:
  "applyWithStarterPlayer p g = Inr g' \<Longrightarrow> draftInv g \<Longrightarrow> draftInv g'"
  by (auto simp: applyWithStarterPlayer_def draftInv_def split: if_splits)

lemma apply_draftInv:
  "apply_option opt g = Inr g' \<Longrightarrow> draftInv g \<Longrightarrow> draftInv g'"
  "apply_pack opts g = Inr g' \<Longrightarrow> draftInv g \<Longrightarrow> draftInv g'"
proof (induction opt g and opts g arbitrary: g' and g' rule: apply_option_apply_pack.induct)
  case (1 b g)
  then show ?case by (simp add: applyWithBoard_draftInv)
next
  case (15 opt opts g)
  then show ?case by (auto split: sum.splits)
qed (auto simp: draftInv_def dest: withBot_draftInv applyWithSize_draftInv
       applyWithRandomSize_draftInv applyWithStarterPlayer_draftInv split: if_splits)

lemma Start_Inv: "Start opts = Inr g \<Longrightarrow> Inv g"
proof -
  assume s: "Start opts = Inr g"
  have d0: "draftInv draft" by (simp add: draftInv_def draft_def)
  from s obtain g1 where g1: "apply_pack opts draft = Inr g1"
    by (auto simp: Start_def split: sum.splits)
  from apply_draftInv(2) [OF g1 d0] have d1: "draftInv g1" .
  show ?thesis
  proof (cases "board g1 = []")
    case True
    with d1 have "turns g1 = []" "maxTurns g1 = int (unat (size_g g1)) * int (unat (size_g g1))"
      by (simp_all add: draftInv_def)
    moreover from s g1 True
    have "g = g1\<lparr>gboard := newBoard (size_g g1),
                   player := (if player g1 = 0 then PlayerOne else player g1)\<rparr>"
      by (auto simp: Start_def Let_def split: if_splits)
    ultimately show ?thesis
      by (simp add: Inv_def wf_game_def consistent_def square_def deref_newBoard occupiedCount_def)
  next
    case False
    with d1 have "Inv g1" by (simp add: draftInv_def)
    with s g1 False show ?thesis
      by (auto simp: Start_def split: sum.splits if_splits)
  qed
qed

section \<open>Play preserves the invariant\<close>

lemma AllowBotTurn_cases:
  assumes "AllowBotTurn g r = Some (g', st, pl, err)"
  shows "g' = g \<or> (\<exists>c st1 pl1 err1. play g \<lparr>Cell = c, Player = player g\<rparr> True = (g', st1, pl1, err1))"
proof (cases "IsBotTurn g")
  case False
  with assms show ?thesis by (simp add: AllowBotTurn_def)
next
  case True
  show ?thesis
  proof (cases "bot_Turn (the (bot g)) (board g) (handle g) r")
    case None
    with assms True show ?thesis by (simp add: AllowBotTurn_def)
  next
    case (Some res)
    show ?thesis
    proof (cases res)
      case (Inl e)
      with assms True Some show ?thesis by (simp add: AllowBotTurn_def)
    next
      case (Inr c)
      obtain g1 st1 pl1 err1 where
        p: "play g \<lparr>Cell = c, Player = player g\<rparr> True = (g1, st1, pl1, err1)"
        by (metis prod_cases4)
      with assms True Some Inr have "g' = g1" by (simp add: AllowBotTurn_def)
      with p show ?thesis by blast
    qed
  qed
qed

lemma AllowBotTurn_Inv:
  assumes "Inv g" and "ownRows (gboard g)" and "AllowBotTurn g r = Some (g', st, pl, err)"
  shows "Inv g' \<and> ownRows (gboard g')"
  using AllowBotTurn_cases [OF assms(3)] assms(1,2)
  by (auto dest: play_Inv simp: play_ownRows)

lemma perform_Inv:
  assumes "Inv g" and "ownRows (gboard g)" and "perform g c = Some g'"
  shows "Inv g' \<and> ownRows (gboard g')"
proof (cases c)
  case (CallPlay t)
  obtain g1 st1 pl1 err1 where p: "play g t False = (g1, st1, pl1, err1)"
    by (metis prod_cases4)
  with CallPlay assms(3) have "g' = g1" by (simp add: Play_def)
  with play_Inv [OF assms(1,2) p] play_ownRows [OF p] assms(2) show ?thesis by simp
next
  case (CallAllowBotTurn r)
  with assms(3) obtain st pl err where "AllowBotTurn g r = Some (g', st, pl, err)"
    by auto
  with assms(1,2) show ?thesis by (rule AllowBotTurn_Inv)
qed

lemma performAll_Inv:
  "Inv g \<Longrightarrow> ownRows (gboard g) \<Longrightarrow> performAll g cs = Some g' \<Longrightarrow>
   Inv g' \<and> ownRows (gboard g')"
proof (induction cs arbitrary: g)
  case Nil
  then show ?case by simp
next
  case (Cons c cs)
  from Cons.prems(3) obtain g1 where g1: "perform g c = Some g1" "performAll g1 cs = Some g'"
    by (auto split: option.splits)
  from perform_Inv [OF Cons.prems(1,2) g1(1)] Cons.IH [of g1] g1(2) show ?case by blast
qed

text \<open>
  A game returned by \<^verbatim>\<open>Start\<close>, with any options, whose board has rows that lie apart
  (every board that \<^verbatim>\<open>Start\<close> allocates, and every preset board of separate rows), and
  then used through any sequence of \<^verbatim>\<open>Play\<close> and \<^verbatim>\<open>AllowBotTurn\<close> calls, these calls
  being the only writes to its storage, has a turn history as long as its board has
  non-zero cells, and each recorded turn's cell holds that turn's player.
\<close>

lemma history_matches_board:
  assumes "Start opts = Inr g" and "ownRows (gboard g)" and "performAll g cs = Some g'"
  shows "length (turns g') = occupiedCount (board g') \<and>
         (\<forall>t \<in> set (turns g'). getCell (board g') (Cell t) = Player t)"
  using performAll_Inv [OF Start_Inv [OF assms(1)] assms(2,3)]
  by (simp add: Inv_def consistent_def)

lemma Start_empty: "Start [] = Inr freshGame"
  by (simp add: Start_def draft_def freshGame_def MinSize_def nilBoard_def deref_def)

text \<open>
  The caller's board is the game's board: read after a call, in the storage that the
  call leaves, the board that was handed to \<^verbatim>\<open>WithBoard\<close> shows the mark that \<^verbatim>\<open>Play\<close>
  wrote.
\<close>

lemma caller_reads_the_mark:
  "deref ((alloc [[0, 0, 0], [0, 0, 0], [0, 0, 0]])
            \<lparr>storage := storage (gboard (fst (Play
                 (projr (Start [WithBoard (alloc [[0, 0, 0], [0, 0, 0], [0, 0, 0]])]))
                 \<lparr>Cell = \<lparr>Column = 1, Row = 1\<rparr>, Player = PlayerOne\<rparr>)))\<rparr>)
     = [[0, 0, 0], [0, 1, 0], [0, 0, 0]]"
  by code_simp

text \<open>
  Claim C10, at a preset board whose rows share storage.  \<^verbatim>\<open>WithBoard\<close> installs the
  caller's board without copying it, and \<^verbatim>\<open>play\<close> assigns through it.  For the board
  made of one empty row three times, \<^verbatim>\<open>Start\<close> returns a game with an empty board and
  \<^verbatim>\<open>PlayerOne\<close> on move; the turn of \<^verbatim>\<open>PlayerOne\<close> on (0,0) is accepted and writes the
  one array, so that the board reads \<^verbatim>\<open>PlayerOne\<close> in column 0 of every row: the game is
  won by that turn, and its history of one turn faces three non-zero cells.
\<close>

theorem C10_shared_rows:
  "\<not> isl (Start [WithBoard sharedRows]) \<and>
   board (projr (Start [WithBoard sharedRows])) = [[0, 0, 0], [0, 0, 0], [0, 0, 0]] \<and>
   turns (projr (Start [WithBoard sharedRows])) = [] \<and>
   player (projr (Start [WithBoard sharedRows])) = PlayerOne \<and>
   snd (snd (snd (Play (projr (Start [WithBoard sharedRows]))
                    \<lparr>Cell = \<lparr>Column = 0, Row = 0\<rparr>, Player = PlayerOne\<rparr>))) = None \<and>
   map_option (\<lambda>g. (board g, turns g, state g, player g))
      (performAll (projr (Start [WithBoard sharedRows]))
         [CallPlay \<lparr>Cell = \<lparr>Column = 0, Row = 0\<rparr>, Player = PlayerOne\<rparr>])
     = Some ([[1, 0, 0], [1, 0, 0], [1, 0, 0]],
             [\<lparr>Cell = \<lparr>Column = 0, Row = 0\<rparr>, Player = PlayerOne\<rparr>], StateWon, PlayerOne) \<and>
   length [\<lparr>Cell = \<lparr>Column = 0, Row = 0\<rparr>, Player = PlayerOne\<rparr>] = 1 \<and>
   occupiedCount [[1, 0, 0], [1, 0, 0], [1, 0, 0]] = 3"
  by code_simp

section \<open>Replaying the turns derived from a preset board\<close>

lemma replay_board:
  "replayAccepted g ts \<Longrightarrow> ownRows (gboard g) \<Longrightarrow>
   board (replay g ts) = foldl placeTurn (board g) ts"
proof (induction ts arbitrary: g)
  case Nil
  show ?case by simp
next
  case (Cons t ts)
  obtain g1 st pl err where p: "play g t False = (g1, st, pl, err)" by (metis prod_cases4)
  with Cons.prems have acc: "err = None" "replayAccepted g1 ts" by (simp_all add: Play_def)
  with play_cases [OF p Cons.prems(2)]
  have "board g1 = setCell (board g) (Cell t) (Player t)" by auto
  moreover have "ownRows (gboard g1)" using play_ownRows [OF p] Cons.prems(2) by simp
  ultimately show ?case using Cons.IH [OF acc(2)] p by (simp add: Play_def placeTurn_def)
qed

lemma square_foldl_placeTurn: "square n b \<Longrightarrow> square n (foldl placeTurn b ts)"
  by (induction ts arbitrary: b) (simp_all add: placeTurn_def square_setCell)

lemma getCell_foldl_untouched:
  "\<forall>t \<in> set ts. Cell t \<noteq> c \<Longrightarrow> getCell (foldl placeTurn b ts) c = getCell b c"
  by (induction ts arbitrary: b) (simp_all add: placeTurn_def getCell_setCell_other [OF not_sym])

lemma getCell_foldl_placed:
  assumes "square n b" and "unat (Row (Cell t)) < n" and "unat (Column (Cell t)) < n"
    and "t \<in> set ts" and "\<forall>t' \<in> set ts. Cell t' = Cell t \<longrightarrow> Player t' = Player t"
  shows "getCell (foldl placeTurn b ts) (Cell t) = Player t"
  using assms(4,5)
proof (induction ts rule: rev_induct)
  case Nil
  then show ?case by simp
next
  case (snoc x ts)
  have sq: "square n (foldl placeTurn b ts)" using assms(1) by (rule square_foldl_placeTurn)
  have step: "foldl placeTurn b (ts @ [x]) = setCell (foldl placeTurn b ts) (Cell x) (Player x)"
    by (simp add: placeTurn_def [of "foldl placeTurn b ts" x])
  show ?case
  proof (cases "Cell x = Cell t")
    case True
    have "x \<in> set (ts @ [x])" by simp
    with snoc.prems(2) True have px: "Player x = Player t" by blast
    have "getCell (setCell (foldl placeTurn b ts) (Cell t) (Player t)) (Cell t) = Player t"
      using sq assms(2,3) by (rule getCell_setCell_same)
    then show ?thesis unfolding step using True px by simp
  next
    case False
    then have "t \<noteq> x" by auto
    with snoc.prems(1) have mem: "t \<in> set ts" by simp
    have "\<forall>t' \<in> set ts. Cell t' = Cell t \<longrightarrow> Player t' = Player t"
      using snoc.prems(2) by simp
    with mem have "getCell (foldl placeTurn b ts) (Cell t) = Player t" by (rule snoc.IH)
    moreover have "getCell (setCell (foldl placeTurn b ts) (Cell x) (Player x)) (Cell t)
                     = getCell (foldl placeTurn b ts) (Cell t)"
      using False by (intro getCell_setCell_other) simp
    ultimately show ?thesis unfolding step by simp
  qed
qed

lemma square_newBoard: "square (unat n) (deref (newBoard n))"
  by (simp add: square_def deref_newBoard)

lemma foldl_occupiedTurns:
  assumes sq: "square n b" and n: "n \<le> 255"
  shows "foldl placeTurn (deref (newBoard (of_nat n))) (occupiedTurns b) = b"
proof -
  let ?F = "foldl placeTurn (deref (newBoard (of_nat n))) (occupiedTurns b)"
  have un: "unat (of_nat n :: 8 word) = n" using n by (simp add: unat_of_nat)
  have sqN: "square n (deref (newBoard (of_nat n)))" using square_newBoard [of "of_nat n"] un by simp
  have sqF: "square n ?F" using sqN by (rule square_foldl_placeTurn)
  have lb: "length b = n" and lF: "length ?F = n" using sq sqF by (simp_all add: square_def)
  have cellEq: "?F ! i ! j = b ! i ! j" if i: "i < n" and j: "j < n" for i j
  proof -
    let ?c = "\<lparr>Column = of_nat j :: 8 word, Row = of_nat i :: 8 word\<rparr>"
    have ui: "unat (of_nat i :: 8 word) = i" and uj: "unat (of_nat j :: 8 word) = j"
      using i j n by (simp_all add: unat_of_nat)
    have get: "getCell X ?c = X ! i ! j" for X by (simp add: getCell_def ui uj)
    have same: "i' = i \<and> j' = j"
      if "i' < length b" "j' < length (b ! i')"
         "\<lparr>Column = of_nat j' :: 8 word, Row = of_nat i' :: 8 word\<rparr> = ?c" for i' j'
    proof -
      have "length (b ! i') = n" using sq that(1) lb by (simp add: square_nth)
      with that lb n i j have "i' < 256" "j' < 256" "i < 256" "j < 256" by simp_all
      moreover from that(3) have "unat (of_nat j' :: 8 word) = unat (of_nat j :: 8 word)"
        "unat (of_nat i' :: 8 word) = unat (of_nat i :: 8 word)"
        by simp_all
      ultimately show ?thesis
        by (simp add: unat_of_nat)
    qed
    show ?thesis
    proof (cases "b ! i ! j = 0")
      case True
      have "\<forall>t \<in> set (occupiedTurns b). Cell t \<noteq> ?c"
      proof
        fix t assume "t \<in> set (occupiedTurns b)"
        then obtain i' j' where t: "i' < length b" "j' < length (b ! i')" "b ! i' ! j' \<noteq> 0"
          "t = \<lparr>Cell = \<lparr>Column = of_nat j', Row = of_nat i'\<rparr>, Player = b ! i' ! j'\<rparr>"
          by (auto simp: set_occupiedTurns)
        show "Cell t \<noteq> ?c"
        proof
          assume "Cell t = ?c"
          with t same [of i' j'] have "i' = i \<and> j' = j" by simp
          with t(3) True show False by simp
        qed
      qed
      then have "getCell ?F ?c = getCell (deref (newBoard (of_nat n))) ?c"
        by (rule getCell_foldl_untouched)
      also have "\<dots> = 0" using i j by (simp add: get deref_newBoard un)
      finally show ?thesis using True by (simp add: get)
    next
      case False
      let ?t = "\<lparr>Cell = ?c, Player = b ! i ! j\<rparr>"
      have lbi: "length (b ! i) = n" using sq i by (rule square_nth)
      have mem: "?t \<in> set (occupiedTurns b)"
        unfolding set_occupiedTurns using False i j lb lbi
        by (intro exI [of _ i] conjI exI [of _ j]) simp_all
      have uniq: "\<forall>t' \<in> set (occupiedTurns b). Cell t' = Cell ?t \<longrightarrow> Player t' = Player ?t"
      proof (intro ballI impI)
        fix t' assume m: "t' \<in> set (occupiedTurns b)" and c: "Cell t' = Cell ?t"
        from m obtain i' j' where t: "i' < length b" "j' < length (b ! i')"
          "t' = \<lparr>Cell = \<lparr>Column = of_nat j', Row = of_nat i'\<rparr>, Player = b ! i' ! j'\<rparr>"
          by (auto simp: set_occupiedTurns)
        with c same [of i' j'] have "i' = i \<and> j' = j" by simp
        with t show "Player t' = Player ?t" by simp
      qed
      have "getCell ?F (Cell ?t) = Player ?t"
        using sqN _ _ mem uniq by (rule getCell_foldl_placed) (simp_all add: ui uj i j)
      then show ?thesis by (simp add: get)
    qed
  qed
  show ?thesis
  proof (rule nth_equalityI)
    show "length ?F = length b" using lb lF by simp
  next
    fix i assume "i < length ?F"
    then have i: "i < n" using lF by simp
    show "?F ! i = b ! i"
    proof (rule nth_equalityI)
      show "length (?F ! i) = length (b ! i)"
        using square_nth [OF sqF i] square_nth [OF sq i] by simp
    next
      fix j assume "j < length (?F ! i)"
      then have "j < n" using square_nth [OF sqF i] by simp
      with i show "?F ! i ! j = b ! i ! j" by (rule cellEq)
    qed
  qed
qed

lemma Start_WithBoard:
  assumes "Start [WithBoard bv] = Inr g"
  shows "\<not> presetInvalid (deref bv) \<and> turns g = occupiedTurns (deref bv) \<and>
         size_g g = of_nat (length (deref bv)) \<and> gboard g = bv"
proof -
  let ?b = "deref bv"
  from assms obtain g1 where a: "applyWithBoard bv draft = Inr g1"
    by (auto simp: Start_def split: sum.splits)
  then have ok: "\<not> presetInvalid ?b"
    using check_Inl_iff [of ?b] by (cases "check ?b") (auto simp: applyWithBoard_def)
  then have ne: "?b \<noteq> []" by (auto simp: presetInvalid_def)
  from a check_Inr [OF ok] have g1: "turns g1 = occupiedTurns ?b" "size_g g1 = of_nat (length ?b)"
    "gboard g1 = bv"
    by (auto simp: applyWithBoard_def Let_def simp del: length_deref split: if_splits)
  then have "board g1 = ?b" by (simp add: board_def)
  with g1 assms a ne
  have "turns g = occupiedTurns ?b \<and> size_g g = of_nat (length ?b) \<and> gboard g = bv"
    by (auto simp: Start_def simp del: length_deref deref_eq_Nil split: sum.splits if_splits)
  with ok show ?thesis by simp
qed

text \<open>
  Claim C8, as stated, fails.  The turns that \<^verbatim>\<open>WithBoard\<close> derives are in row-major
  scan order, not in an order of play: from the valid board with \<^verbatim>\<open>PlayerOne\<close> on
  (0,0) and (0,1) and \<^verbatim>\<open>PlayerTwo\<close> on (1,0), the second derived turn is again by
  \<^verbatim>\<open>PlayerOne\<close>, \<^verbatim>\<open>Play\<close> rejects it on a fresh game, and the replay ends on a board
  without the mark on (0,1).
\<close>

theorem C8_counterexample:
  "\<not> presetInvalid [[1, 1, 0], [2, 0, 0], [0, 0, 0]] \<and>
   \<not> isl (Start [WithBoard (alloc [[1, 1, 0], [2, 0, 0], [0, 0, 0]])]) \<and>
   board (replay
            (projr (Start [WithSize (size_g (projr (Start [WithBoard (alloc [[1, 1, 0], [2, 0, 0], [0, 0, 0]])])))]))
            (turns (projr (Start [WithBoard (alloc [[1, 1, 0], [2, 0, 0], [0, 0, 0]])]))))
     = [[1, 0, 0], [2, 0, 0], [0, 0, 0]] \<and>
   [[1, 0, 0], [2, 0, 0], [0, 0, 0]] \<noteq> [[1, 1, 0], [2, 0, 0], [0, 0, (0 :: player)]]"
  by code_simp

text \<open>
  Claim C8, amended.  For every preset board \<open>b\<close> from which \<^verbatim>\<open>WithBoard\<close> constructs
  a game, if the game's derived turns are replayed in their stored order through
  \<^verbatim>\<open>Play\<close> onto a fresh game, with an empty board of the same size in rows of its own,
  and every submission of the replay is accepted, then the resulting board equals \<open>b\<close>
  exactly.
\<close>

theorem C8_replay_accepted:
  assumes "Start [WithBoard bv] = Inr g"
    and "board g0 = deref (newBoard (size_g g))" and "ownRows (gboard g0)"
    and "replayAccepted g0 (turns g)"
  shows "board (replay g0 (turns g)) = deref bv \<and> deref bv = board g"
proof -
  let ?b = "deref bv"
  from Start_WithBoard [OF assms(1)] have ok: "\<not> presetInvalid ?b"
    and t: "turns g = occupiedTurns ?b" and s: "size_g g = of_nat (length ?b)"
    and gb: "gboard g = bv" by simp_all
  from ok have "square (length ?b) ?b" "length ?b \<le> 255"
    by (auto simp: presetInvalid_def square_def)
  then have "foldl placeTurn (deref (newBoard (of_nat (length ?b)))) (occupiedTurns ?b) = ?b"
    by (rule foldl_occupiedTurns)
  with replay_board [OF assms(4,3)] assms(2) t s gb show ?thesis by (simp add: board_def)
qed

theorem C8_replay_accepted_witness:
  "\<not> isl (Start [WithBoard (alloc [[1, 2, 0], [0, 0, 0], [0, 0, 0]])]) \<and>
   ownRows (gboard freshGame) \<and>
   replayAccepted freshGame
     (turns (projr (Start [WithBoard (alloc [[1, 2, 0], [0, 0, 0], [0, 0, 0]])]))) \<and>
   board (replay freshGame
            (turns (projr (Start [WithBoard (alloc [[1, 2, 0], [0, 0, 0], [0, 0, 0]])]))))
     = [[1, 2, 0], [0, 0, 0], [0, 0, 0]]"
proof -
  let ?b = "[[1, 2, 0], [0, 0, 0], [0, 0, 0]] :: board"
  let ?g = "projr (Start [WithBoard (alloc ?b)])"
  have ok: "\<not> isl (Start [WithBoard (alloc ?b)])" by code_simp
  then have s: "Start [WithBoard (alloc ?b)] = Inr ?g" by simp
  have e: "board freshGame = deref (newBoard (size_g ?g))" by code_simp
  have a: "replayAccepted freshGame (turns ?g)" by code_simp
  from C8_replay_accepted [OF s e ownRows_freshGame a] ok a ownRows_freshGame
  show ?thesis by simp
qed

section \<open>The two-ply bot\<close>

lemma hard_oppLoop_eq:
  "hard_oppLoop cs nb opp ocs acc =
     (if filter (winningFor cs nb opp) ocs = [] then acc
      else Some (last (filter (winningFor cs nb opp) ocs)))"
  by (induction ocs arbitrary: acc) (simp_all add: winningFor_def Let_def)

lemma hard_loop_eq:
  "hard_loop cs b opp p cands acc =
     (if filter (winningFor cs b p) cands \<noteq> [] then Inl (hd (filter (winningFor cs b p) cands))
      else Inr (if oppWinsAfter cs b opp p cands = [] then acc
                else Some (last (oppWinsAfter cs b opp p cands))))"
proof (induction cands arbitrary: acc)
  case Nil
  show ?case by (simp add: oppWinsAfter_def)
next
  case (Cons c rest)
  show ?case
  proof (cases "winningFor cs b p c")
    case True
    then show ?thesis by (simp add: winningFor_def Let_def)
  next
    case False
    let ?nb = "setCell (Copy b) c p"
    let ?ws = "filter (winningFor cs ?nb opp) (FindEmpty ?nb)"
    have split: "oppWinsAfter cs b opp p (c # rest) = ?ws @ oppWinsAfter cs b opp p rest"
      by (simp add: oppWinsAfter_def)
    have "hard_loop cs b opp p (c # rest) acc =
            hard_loop cs b opp p rest (if ?ws = [] then acc else Some (last ?ws))"
      using False by (simp add: winningFor_def Let_def hard_oppLoop_eq)
    also have "\<dots> =
       (if filter (winningFor cs b p) rest \<noteq> [] then Inl (hd (filter (winningFor cs b p) rest))
        else Inr (if oppWinsAfter cs b opp p rest = [] then (if ?ws = [] then acc else Some (last ?ws))
                  else Some (last (oppWinsAfter cs b opp p rest))))"
      by (rule Cons.IH)
    finally show ?thesis using False unfolding split by simp
  qed
qed

text \<open>
  Claim C5.  On a board with at least one empty cell, \<^verbatim>\<open>hardBot.Turn\<close> returns the
  first empty cell of the row-major scan that is winning for the bot, if there is one;
  otherwise the last opponent-winning reply that its scan over the candidate-move boards
  discovers, if there is one; otherwise the empty cell selected by the random draw.
\<close>

theorem C5_hardBot_Turn:
  assumes "FindEmpty b \<noteq> []"
  shows "hardBot_Turn opp p b g r =
           (if botWins (conditions g) b p \<noteq> [] then hd (botWins (conditions g) b p)
            else if oppWins (conditions g) b opp p \<noteq> [] then last (oppWins (conditions g) b opp p)
            else FindEmpty b ! (r mod length (FindEmpty b))) \<and>
         FindEmpty b ! (r mod length (FindEmpty b)) \<in> set (FindEmpty b)"
  using assms
  by (simp add: hardBot_Turn_def hard_loop_eq botWins_def oppWins_def Random_def Let_def)



theorem C5_hardBot_Turn_witness:
  "FindEmpty [[0, 2, 2], [1, 1, 2], [0, 1, 0]] \<noteq> [] \<and>
   botWins standardConditions [[0, 2, 2], [1, 1, 2], [0, 1, 0]] 1 = [] \<and>
   hd (oppWins standardConditions [[0, 2, 2], [1, 1, 2], [0, 1, 0]] 2 1) = \<lparr>Column = 2, Row = 2\<rparr> \<and>
   hardBot_Turn 2 1 [[0, 2, 2], [1, 1, 2], [0, 1, 0]] freshGame 0 = \<lparr>Column = 0, Row = 0\<rparr>"
proof -
  let ?b = "[[0, 2, 2], [1, 1, 2], [0, 1, 0]] :: board"
  have h: "FindEmpty ?b \<noteq> []" by code_simp
  have c: "conditions freshGame = standardConditions" by (simp add: freshGame_def)
  have w: "botWins standardConditions ?b 1 = []" by code_simp
  have o: "oppWins standardConditions ?b 2 1 \<noteq> []" by code_simp
  have f: "hd (oppWins standardConditions ?b 2 1) = \<lparr>Column = 2, Row = 2\<rparr>" by code_simp
  have l: "last (oppWins standardConditions ?b 2 1) = \<lparr>Column = 0, Row = 0\<rparr>" by code_simp
  from C5_hardBot_Turn [OF h, of 2 1 freshGame 0] h w o f l show ?thesis
    unfolding c by simp
qed


section \<open>The minimax search\<close>

lemma selectLoop_max:
  "snd (selectLoop True chs minC cur) =
     (if \<forall>x \<in> set chs. ch_value x \<le> ch_value cur then cur
      else hd (filter (\<lambda>x. ch_value x = Max (ch_value ` set chs)) chs))"
proof (induction chs arbitrary: cur)
  case Nil
  show ?case by simp
next
  case (Cons x xs)
  show ?case
  proof (cases "ch_value x > ch_value cur")
    case True
    show ?thesis
    proof (cases "\<forall>y \<in> set xs. ch_value y \<le> ch_value x")
      case all: True
      then have "Max (ch_value ` set (x # xs)) = ch_value x"
        by (intro Max_eqI) auto
      with True all Cons.IH [of x] show ?thesis by auto
    next
      case False
      then obtain y where y: "y \<in> set xs" "ch_value y > ch_value x" by auto
      then have ne: "set xs \<noteq> {}" by auto
      have "Max (ch_value ` set xs) \<ge> ch_value y" using y(1) by simp
      then have gt: "Max (ch_value ` set xs) > ch_value x" using y(2) by simp
      then have "max (ch_value x) (Max (ch_value ` set xs)) = Max (ch_value ` set xs)"
        by (intro max_absorb2) simp
      then have m: "Max (ch_value ` set (x # xs)) = Max (ch_value ` set xs)"
        using ne by (simp only: list.set image_insert Max_insert finite_imageI finite_set
                       image_is_empty simp_thms)
      from True y Cons.IH [of x] gt show ?thesis unfolding m by auto
    qed
  next
    case le: False
    show ?thesis
    proof (cases "\<forall>y \<in> set xs. ch_value y \<le> ch_value cur")
      case True
      with le Cons.IH [of cur] show ?thesis by auto
    next
      case False
      then obtain y where y: "y \<in> set xs" "ch_value y > ch_value cur" by auto
      then have ne: "set xs \<noteq> {}" by auto
      have "Max (ch_value ` set xs) \<ge> ch_value y" using y(1) by simp
      then have gt: "Max (ch_value ` set xs) > ch_value x" using y(2) le by simp
      then have "max (ch_value x) (Max (ch_value ` set xs)) = Max (ch_value ` set xs)"
        by (intro max_absorb2) simp
      then have m: "Max (ch_value ` set (x # xs)) = Max (ch_value ` set xs)"
        using ne by (simp only: list.set image_insert Max_insert finite_imageI finite_set
                       image_is_empty simp_thms)
      from le y Cons.IH [of cur] gt show ?thesis unfolding m by auto
    qed
  qed
qed

lemma selectLoop_min:
  "fst (selectLoop False chs cur maxC) =
     (if \<forall>x \<in> set chs. ch_value cur \<le> ch_value x then cur
      else hd (filter (\<lambda>x. ch_value x = Min (ch_value ` set chs)) chs))"
proof (induction chs arbitrary: cur)
  case Nil
  show ?case by simp
next
  case (Cons x xs)
  show ?case
  proof (cases "ch_value x < ch_value cur")
    case True
    show ?thesis
    proof (cases "\<forall>y \<in> set xs. ch_value x \<le> ch_value y")
      case all: True
      then have "Min (ch_value ` set (x # xs)) = ch_value x"
        by (intro Min_eqI) auto
      with True all Cons.IH [of x] show ?thesis by auto
    next
      case False
      then obtain y where y: "y \<in> set xs" "ch_value y < ch_value x" by auto
      then have ne: "set xs \<noteq> {}" by auto
      have "Min (ch_value ` set xs) \<le> ch_value y" using y(1) by simp
      then have gt: "Min (ch_value ` set xs) < ch_value x" using y(2) by simp
      then have "min (ch_value x) (Min (ch_value ` set xs)) = Min (ch_value ` set xs)"
        by (intro min_absorb2) simp
      then have m: "Min (ch_value ` set (x # xs)) = Min (ch_value ` set xs)"
        using ne by (simp only: list.set image_insert Min_insert finite_imageI finite_set
                       image_is_empty simp_thms)
      from True y Cons.IH [of x] gt show ?thesis unfolding m by auto
    qed
  next
    case le: False
    show ?thesis
    proof (cases "\<forall>y \<in> set xs. ch_value cur \<le> ch_value y")
      case True
      with le Cons.IH [of cur] show ?thesis by auto
    next
      case False
      then obtain y where y: "y \<in> set xs" "ch_value y < ch_value cur" by auto
      then have ne: "set xs \<noteq> {}" by auto
      have "Min (ch_value ` set xs) \<le> ch_value y" using y(1) by simp
      then have gt: "Min (ch_value ` set xs) < ch_value x" using y(2) le by simp
      then have "min (ch_value x) (Min (ch_value ` set xs)) = Min (ch_value ` set xs)"
        by (intro min_absorb2) simp
      then have m: "Min (ch_value ` set (x # xs)) = Min (ch_value ` set xs)"
        using ne by (simp only: list.set image_insert Min_insert finite_imageI finite_set
                       image_is_empty simp_thms)
      from le y Cons.IH [of cur] gt show ?thesis unfolding m by auto
    qed
  qed
qed

lemma collect_all_ok:
  "\<forall>k \<in> set kids. \<exists>ch. snd k = Some (Inr ch) \<Longrightarrow>
   collect kids acc =
     Some (Inr (acc @ map (\<lambda>k. (projr (the (snd k)))\<lparr>ch_cell := fst k\<rparr>) kids))"
proof (induction kids arbitrary: acc)
  case Nil
  show ?case by simp
next
  case (Cons k kids)
  obtain c r where k: "k = (c, r)" by (cases k)
  with Cons.prems obtain ch where r: "r = Some (Inr ch)" by auto
  from Cons.prems have "\<forall>k \<in> set kids. \<exists>ch. snd k = Some (Inr ch)" by simp
  from Cons.IH [OF this] k r show ?case by simp
qed

lemma collect_Inr_all_ok:
  "collect kids acc = Some (Inr chs) \<Longrightarrow> \<forall>k \<in> set kids. \<exists>ch. snd k = Some (Inr ch)"
proof (induction kids acc rule: collect.induct)
  case (1 choices)
  show ?case by simp
next
  case (2 candidate rest choices)
  then show ?case by simp
next
  case (3 candidate err rest choices)
  then show ?case by simp
next
  case (4 candidate choice rest choices)
  then show ?case by simp
qed

lemma hd_filter_map:
  "filter (\<lambda>x. P (f x)) xs \<noteq> [] \<Longrightarrow>
   hd (filter P (map f xs)) = f (hd (filter (\<lambda>x. P (f x)) xs))"
  by (induction xs) auto

lemma minimax_internal:
  assumes fw: "Conditions_FindWinner (conditions g) b = Inr w" "w \<noteq> bp" "w \<noteq> Next bp"
    and ne: "FindEmpty b \<noteq> []"
    and kids: "\<forall>c \<in> set (FindEmpty b). \<exists>ch. childSearch n bp b g mx pl d c = Some (Inr ch)"
    and bound: "\<forall>c \<in> set (FindEmpty b). \<bar>childValue n bp b g mx pl d c\<bar> < (maxTurns g + 1)\<^sup>2"
  shows "minimax (Suc n) bp b g lt mx pl d =
           Some (Inr ((projr (the (childSearch n bp b g mx pl d (bestCell n bp b g mx pl d))))
                        \<lparr>ch_cell := bestCell n bp b g mx pl d\<rparr>)) \<and>
         childValue n bp b g mx pl d (bestCell n bp b g mx pl d)
           = bestValue mx (map (childValue n bp b g mx pl d) (FindEmpty b)) \<and>
         bestCell n bp b g mx pl d \<in> set (FindEmpty b)"
proof -
  let ?cands = "FindEmpty b"
  let ?cs = "childSearch n bp b g mx pl d"
  let ?cv = "childValue n bp b g mx pl d"
  let ?ann = "\<lambda>c. (projr (the (?cs c)))\<lparr>ch_cell := c\<rparr>"
  let ?choices = "map ?ann ?cands"
  let ?best = "bestValue mx (map ?cv ?cands)"
  let ?bc = "bestCell n bp b g mx pl d"
  let ?M = "maxTurns g"
  have val: "ch_value (?ann c) = ?cv c" if "c \<in> set ?cands" for c
    using kids that by (auto simp: childValue_def)
  have vals: "ch_value ` set ?choices = ?cv ` set ?cands"
    using val by (auto simp: image_iff)
  have col: "collect (map (\<lambda>c. (c, ?cs c)) ?cands) [] = Some (Inr ?choices)"
  proof -
    have "\<forall>k \<in> set (map (\<lambda>c. (c, ?cs c)) ?cands). \<exists>ch. snd k = Some (Inr ch)"
      using kids by auto
    from collect_all_ok [OF this, of "[]"] show ?thesis by (simp add: comp_def)
  qed
  have fin: "finite (?cv ` set ?cands)" "?cv ` set ?cands \<noteq> {}" using ne by simp_all
  have bestIn: "?best \<in> ?cv ` set ?cands"
    using Max_in [OF fin] Min_in [OF fin] by (cases mx) (simp_all add: bestValue_def)
  then have fne: "filter (\<lambda>c. ?cv c = ?best) ?cands \<noteq> []"
    by (auto simp: filter_empty_conv)
  then have bcIn: "?bc \<in> set (filter (\<lambda>c. ?cv c = ?best) ?cands)"
    unfolding bestCell_def by (rule hd_in_set)
  then have bc: "?bc \<in> set ?cands" "?cv ?bc = ?best" by simp_all
  have filt: "filter (\<lambda>x. ch_value x = ?best) ?choices = map ?ann (filter (\<lambda>c. ?cv c = ?best) ?cands)"
    using val by (simp add: filter_map comp_def cong: filter_cong)
  have hdsel: "hd (filter (\<lambda>x. ch_value x = ?best) ?choices) = ?ann ?bc"
    unfolding filt bestCell_def using fne by (simp add: hd_map)
  obtain c0 where c0: "c0 \<in> set ?cands" using ne by (cases ?cands) auto
  with bound have b0: "- ((?M + 1)\<^sup>2) < ?cv c0" "?cv c0 < (?M + 1)\<^sup>2" by (auto simp: abs_less_iff)
  have sel: "(if mx then snd (selectLoop mx ?choices minC maxC) else fst (selectLoop mx ?choices minC maxC))
               = ?ann ?bc"
    if "ch_value maxC = - ((?M + 1)\<^sup>2)" "ch_value minC = (?M + 1)\<^sup>2" for minC maxC
  proof (cases mx)
    case True
    then have bv: "?best = Max (ch_value ` set ?choices)"
      unfolding vals by (simp add: bestValue_def)
    have "ch_value (?ann c0) > ch_value maxC" using c0 b0 val that by simp
    moreover have "?ann c0 \<in> set ?choices" using c0 by simp
    ultimately have nle: "\<not> (\<forall>x \<in> set ?choices. ch_value x \<le> ch_value maxC)"
      by (meson not_le)
    have "snd (selectLoop True ?choices minC maxC)
            = hd (filter (\<lambda>x. ch_value x = Max (ch_value ` set ?choices)) ?choices)"
      using nle by (simp only: selectLoop_max if_False)
    also have "\<dots> = ?ann ?bc" unfolding bv [symmetric] by (rule hdsel)
    finally show ?thesis using True by simp
  next
    case False
    then have bv: "?best = Min (ch_value ` set ?choices)"
      unfolding vals by (simp add: bestValue_def)
    have "ch_value (?ann c0) < ch_value minC" using c0 b0 val that by simp
    moreover have "?ann c0 \<in> set ?choices" using c0 by simp
    ultimately have nle: "\<not> (\<forall>x \<in> set ?choices. ch_value minC \<le> ch_value x)"
      by (meson not_le)
    have "fst (selectLoop False ?choices minC maxC)
            = hd (filter (\<lambda>x. ch_value x = Min (ch_value ` set ?choices)) ?choices)"
      using nle by (simp only: selectLoop_min if_False)
    also have "\<dots> = ?ann ?bc" unfolding bv [symmetric] by (rule hdsel)
    finally show ?thesis using False by simp
  qed
  let ?minC = "\<lparr>ch_cell = \<lparr>Column = 0, Row = 0\<rparr>, ch_depth = d, ch_value = (?M + 1)\<^sup>2\<rparr>"
  let ?maxC = "\<lparr>ch_cell = \<lparr>Column = 0, Row = 0\<rparr>, ch_depth = d, ch_value = - ((?M + 1)\<^sup>2)\<rparr>"
  have "minimax (Suc n) bp b g lt mx pl d =
          Some (Inr (if mx then snd (selectLoop mx ?choices ?minC ?maxC)
                     else fst (selectLoop mx ?choices ?minC ?maxC)))"
    using fw ne col by (simp add: childSearch_def Let_def case_prod_beta)
  also have "(if mx then snd (selectLoop mx ?choices ?minC ?maxC)
              else fst (selectLoop mx ?choices ?minC ?maxC)) = ?ann ?bc"
    by (rule sel) simp_all
  finally have "minimax (Suc n) bp b g lt mx pl d = Some (Inr (?ann ?bc))" .
  with bc show ?thesis by simp
qed

lemma minimax_Inr_kids:
  assumes "minimax (Suc n) bp b g lt mx pl d = Some (Inr r)"
    and "Conditions_FindWinner (conditions g) b = Inr w" "w \<noteq> bp" "w \<noteq> Next bp"
    and "FindEmpty b \<noteq> []"
  shows "\<forall>c \<in> set (FindEmpty b). \<exists>ch. childSearch n bp b g mx pl d c = Some (Inr ch)"
proof -
  from assms obtain chs where
    "collect (map (\<lambda>c. (c, childSearch n bp b g mx pl d c)) (FindEmpty b)) [] = Some (Inr chs)"
    by (auto simp: childSearch_def Let_def split: option.splits sum.splits)
  from collect_Inr_all_ok [OF this] show ?thesis by auto
qed

lemma minimax_value_bound:
  "0 \<le> d \<Longrightarrow> d + int n \<le> maxTurns g + 2 \<Longrightarrow> 1 \<le> maxTurns g \<Longrightarrow>
   minimax n bp b g lt mx pl d = Some (Inr r) \<Longrightarrow> \<bar>ch_value r\<bar> \<le> maxTurns g + 1"
proof (induction n arbitrary: b lt mx pl d r)
  case 0
  then show ?case by simp
next
  case (Suc n)
  let ?M = "maxTurns g"
  from Suc.prems(4) obtain w where fw: "Conditions_FindWinner (conditions g) b = Inr w"
    by (cases "Conditions_FindWinner (conditions g) b") (auto simp: Let_def)
  from Suc.prems have dM: "d \<le> ?M + 1" by simp
  consider "w = bp" | "w \<noteq> bp" "w = Next bp" | "w \<noteq> bp" "w \<noteq> Next bp" "FindEmpty b = []"
    | "w \<noteq> bp" "w \<noteq> Next bp" "FindEmpty b \<noteq> []" by blast
  then show ?case
  proof cases
    case 1
    with Suc.prems(4) fw have "ch_value r = ?M + 1 - d" by (auto simp: Let_def)
    with Suc.prems(1) dM show ?thesis by simp
  next
    case 2
    with Suc.prems(4) fw have "ch_value r = - (?M + 1) + d" by (auto simp: Let_def)
    with Suc.prems(1) dM show ?thesis by simp
  next
    case 3
    with Suc.prems(4) fw have "ch_value r = 0" by (auto simp: Let_def)
    with Suc.prems(3) show ?thesis by simp
  next
    case 4
    have kids: "\<forall>c \<in> set (FindEmpty b). \<exists>ch. childSearch n bp b g mx pl d c = Some (Inr ch)"
      using Suc.prems(4) fw 4 by (rule minimax_Inr_kids)
    have cb: "\<bar>childValue n bp b g mx pl d c\<bar> \<le> ?M + 1" if "c \<in> set (FindEmpty b)" for c
    proof -
      from kids that obtain ch where ch: "childSearch n bp b g mx pl d c = Some (Inr ch)" by auto
      have "\<bar>ch_value ch\<bar> \<le> ?M + 1"
        using _ _ Suc.prems(3) ch [unfolded childSearch_def]
        by (rule Suc.IH) (use Suc.prems in simp_all)
      with ch show ?thesis by (simp add: childValue_def)
    qed
    have "?M + 1 < (?M + 1)\<^sup>2" using Suc.prems(3) by (simp add: power2_eq_square)
    with cb have bound: "\<forall>c \<in> set (FindEmpty b). \<bar>childValue n bp b g mx pl d c\<bar> < (?M + 1)\<^sup>2"
      by fastforce
    from minimax_internal [OF fw 4 kids bound, of lt] Suc.prems(4)
    have r: "r = (projr (the (childSearch n bp b g mx pl d (bestCell n bp b g mx pl d))))
                   \<lparr>ch_cell := bestCell n bp b g mx pl d\<rparr>"
      and bc: "bestCell n bp b g mx pl d \<in> set (FindEmpty b)" by simp_all
    from kids bc obtain ch where
      ch: "childSearch n bp b g mx pl d (bestCell n bp b g mx pl d) = Some (Inr ch)" by auto
    with r have "ch_value r = childValue n bp b g mx pl d (bestCell n bp b g mx pl d)"
      by (simp add: childValue_def)
    with cb [OF bc] show ?thesis by simp
  qed
qed

lemma length_filter_enumerate_le: "length (filter P (enumerate k xs)) \<le> length xs"
  using length_filter_le [of P "enumerate k xs"] by simp

lemma length_FindEmpty_rows:
  "\<forall>cols \<in> set rows. length cols = n \<Longrightarrow>
   length (concat (map (\<lambda>(row, cols).
        map (\<lambda>(col, p). \<lparr>Column = of_nat col, Row = of_nat row\<rparr>)
            (filter (\<lambda>(col, p). p = 0) (enumerate 0 cols)))
       (enumerate k rows))) \<le> length rows * n"
proof (induction rows arbitrary: k)
  case Nil
  show ?case by simp
next
  case (Cons cols rows)
  have "length (filter (\<lambda>(col, p). p = 0) (enumerate 0 cols)) \<le> n"
    using length_filter_enumerate_le [of _ 0 cols] Cons.prems by simp
  moreover have "length (concat (map (\<lambda>(row, cols).
        map (\<lambda>(col, p). \<lparr>Column = of_nat col, Row = of_nat row\<rparr>)
            (filter (\<lambda>(col, p). p = 0) (enumerate 0 cols)))
       (enumerate (Suc k) rows))) \<le> length rows * n"
    using Cons.prems by (intro Cons.IH) simp
  ultimately show ?case by simp
qed

lemma length_FindEmpty_le: "square n b \<Longrightarrow> length (FindEmpty b) \<le> n * n"
  unfolding FindEmpty_def square_def using length_FindEmpty_rows [of b n 0] by auto

text \<open>
  Claim C4.  For a size-3 board and a game handle with the turn ceiling 9, at any node of
  the search that starts at depth 0 (so that the depth and the remaining levels of the
  recursion stay within 10): a board that the conditions report won by the bot's player
  scores \<open>maxTurns + 1 - depth\<close>, one won by the opponent scores the negation of that, and
  one with no winner and no empty cell scores 0; an internal node whose children all
  return a choice returns the first child in scan order with the maximum value on the
  bot's ply and the minimum value on the opponent's ply, annotated with the candidate
  cell that produced it; and \<^verbatim>\<open>impossibleBot.Turn\<close> returns the cell of that child of
  the root.
\<close>

theorem C4_minimax_scores:
  assumes M: "maxTurns g = 9" and sq: "square 3 b" and d: "0 \<le> depth" "depth + int n \<le> 10"
  shows
    "(Conditions_FindWinner (conditions g) b = Inr bp \<longrightarrow>
        minimax (Suc n) bp b g lastTurn mx pl depth =
          Some (Inr \<lparr>ch_cell = Cell lastTurn, ch_depth = depth,
                     ch_value = (maxTurns g + 1) - depth\<rparr>)) \<and>
     (Conditions_FindWinner (conditions g) b = Inr (Next bp) \<and> Next bp \<noteq> bp \<longrightarrow>
        minimax (Suc n) bp b g lastTurn mx pl depth =
          Some (Inr \<lparr>ch_cell = Cell lastTurn, ch_depth = depth,
                     ch_value = - ((maxTurns g + 1) - depth)\<rparr>)) \<and>
     (\<forall>w. Conditions_FindWinner (conditions g) b = Inr w \<and> w \<noteq> bp \<and> w \<noteq> Next bp \<and>
          FindEmpty b = [] \<longrightarrow>
        minimax (Suc n) bp b g lastTurn mx pl depth =
          Some (Inr \<lparr>ch_cell = Cell lastTurn, ch_depth = depth, ch_value = 0\<rparr>)) \<and>
     (\<forall>w. Conditions_FindWinner (conditions g) b = Inr w \<and> w \<noteq> bp \<and> w \<noteq> Next bp \<and>
          FindEmpty b \<noteq> [] \<and>
          (\<forall>c \<in> set (FindEmpty b). \<exists>ch. childSearch n bp b g mx pl depth c = Some (Inr ch)) \<longrightarrow>
        (\<exists>r. minimax (Suc n) bp b g lastTurn mx pl depth = Some (Inr r) \<and>
             ch_cell r = bestCell n bp b g mx pl depth \<and>
             ch_value r = bestValue mx (map (childValue n bp b g mx pl depth) (FindEmpty b)) \<and>
             bestCell n bp b g mx pl depth \<in> set (FindEmpty b) \<and>
             childValue n bp b g mx pl depth (bestCell n bp b g mx pl depth) = ch_value r)) \<and>
     (\<forall>w. Conditions_FindWinner (conditions g) b = Inr w \<and> w \<noteq> bp \<and> w \<noteq> Next bp \<and>
          FindEmpty b \<noteq> [] \<and>
          (\<forall>c \<in> set (FindEmpty b).
             \<exists>ch. childSearch (length (FindEmpty b)) bp b g True bp 0 c = Some (Inr ch)) \<longrightarrow>
        impossibleBot_Turn bp b g =
          Some (Inr (bestCell (length (FindEmpty b)) bp b g True bp 0)))"
proof -
  have one: "1 \<le> maxTurns g" using M by simp
  have node: "minimax (Suc k) bp b g lt m p e =
           Some (Inr ((projr (the (childSearch k bp b g m p e (bestCell k bp b g m p e))))
                        \<lparr>ch_cell := bestCell k bp b g m p e\<rparr>)) \<and>
         childValue k bp b g m p e (bestCell k bp b g m p e)
           = bestValue m (map (childValue k bp b g m p e) (FindEmpty b)) \<and>
         bestCell k bp b g m p e \<in> set (FindEmpty b)"
    if fw: "Conditions_FindWinner (conditions g) b = Inr w" "w \<noteq> bp" "w \<noteq> Next bp"
      and ne: "FindEmpty b \<noteq> []"
      and kids: "\<forall>c \<in> set (FindEmpty b). \<exists>ch. childSearch k bp b g m p e c = Some (Inr ch)"
      and e: "0 \<le> e" "e + int k \<le> 10"
    for k lt m p e w
  proof -
    have cb: "\<bar>childValue k bp b g m p e c\<bar> < (maxTurns g + 1)\<^sup>2" if "c \<in> set (FindEmpty b)" for c
    proof -
      from kids that obtain ch where ch: "childSearch k bp b g m p e c = Some (Inr ch)" by auto
      have "\<bar>ch_value ch\<bar> \<le> maxTurns g + 1"
        using _ _ one ch [unfolded childSearch_def]
        by (rule minimax_value_bound) (use e M in simp_all)
      with ch M show ?thesis by (simp add: childValue_def)
    qed
    then have "\<forall>c \<in> set (FindEmpty b). \<bar>childValue k bp b g m p e c\<bar> < (maxTurns g + 1)\<^sup>2"
      by blast
    with fw ne kids show ?thesis by (rule minimax_internal)
  qed
  have le9: "int (length (FindEmpty b)) \<le> 9"
    using length_FindEmpty_le [OF sq] by simp
  have p1: "Conditions_FindWinner (conditions g) b = Inr bp \<longrightarrow>
        minimax (Suc n) bp b g lastTurn mx pl depth =
          Some (Inr \<lparr>ch_cell = Cell lastTurn, ch_depth = depth,
                     ch_value = (maxTurns g + 1) - depth\<rparr>)"
    by (simp add: Let_def)
  have p2: "Conditions_FindWinner (conditions g) b = Inr (Next bp) \<and> Next bp \<noteq> bp \<longrightarrow>
        minimax (Suc n) bp b g lastTurn mx pl depth =
          Some (Inr \<lparr>ch_cell = Cell lastTurn, ch_depth = depth,
                     ch_value = - ((maxTurns g + 1) - depth)\<rparr>)"
    by (simp add: Let_def)
  have p3: "\<forall>w. Conditions_FindWinner (conditions g) b = Inr w \<and> w \<noteq> bp \<and> w \<noteq> Next bp \<and>
          FindEmpty b = [] \<longrightarrow>
        minimax (Suc n) bp b g lastTurn mx pl depth =
          Some (Inr \<lparr>ch_cell = Cell lastTurn, ch_depth = depth, ch_value = 0\<rparr>)"
    by (simp add: Let_def)
  have p4: "\<forall>w. Conditions_FindWinner (conditions g) b = Inr w \<and> w \<noteq> bp \<and> w \<noteq> Next bp \<and>
          FindEmpty b \<noteq> [] \<and>
          (\<forall>c \<in> set (FindEmpty b). \<exists>ch. childSearch n bp b g mx pl depth c = Some (Inr ch)) \<longrightarrow>
        (\<exists>r. minimax (Suc n) bp b g lastTurn mx pl depth = Some (Inr r) \<and>
             ch_cell r = bestCell n bp b g mx pl depth \<and>
             ch_value r = bestValue mx (map (childValue n bp b g mx pl depth) (FindEmpty b)) \<and>
             bestCell n bp b g mx pl depth \<in> set (FindEmpty b) \<and>
             childValue n bp b g mx pl depth (bestCell n bp b g mx pl depth) = ch_value r)"
  proof (intro allI impI)
    fix w
    assume a: "Conditions_FindWinner (conditions g) b = Inr w \<and> w \<noteq> bp \<and> w \<noteq> Next bp \<and>
          FindEmpty b \<noteq> [] \<and>
          (\<forall>c \<in> set (FindEmpty b). \<exists>ch. childSearch n bp b g mx pl depth c = Some (Inr ch))"
    then have kids: "\<forall>c \<in> set (FindEmpty b). \<exists>ch. childSearch n bp b g mx pl depth c = Some (Inr ch)"
      by blast
    from a have n: "minimax (Suc n) bp b g lastTurn mx pl depth =
           Some (Inr ((projr (the (childSearch n bp b g mx pl depth (bestCell n bp b g mx pl depth))))
                        \<lparr>ch_cell := bestCell n bp b g mx pl depth\<rparr>))"
      "childValue n bp b g mx pl depth (bestCell n bp b g mx pl depth)
           = bestValue mx (map (childValue n bp b g mx pl depth) (FindEmpty b))"
      "bestCell n bp b g mx pl depth \<in> set (FindEmpty b)"
      using node [of w n mx pl depth lastTurn] d by simp_all
    from kids n(3) obtain ch where
      ch: "childSearch n bp b g mx pl depth (bestCell n bp b g mx pl depth) = Some (Inr ch)" by auto
    then have cv: "childValue n bp b g mx pl depth (bestCell n bp b g mx pl depth) = ch_value ch"
      by (simp add: childValue_def)
    show "\<exists>r. minimax (Suc n) bp b g lastTurn mx pl depth = Some (Inr r) \<and>
             ch_cell r = bestCell n bp b g mx pl depth \<and>
             ch_value r = bestValue mx (map (childValue n bp b g mx pl depth) (FindEmpty b)) \<and>
             bestCell n bp b g mx pl depth \<in> set (FindEmpty b) \<and>
             childValue n bp b g mx pl depth (bestCell n bp b g mx pl depth) = ch_value r"
      using n ch cv by simp
  qed
  have p5: "\<forall>w. Conditions_FindWinner (conditions g) b = Inr w \<and> w \<noteq> bp \<and> w \<noteq> Next bp \<and>
          FindEmpty b \<noteq> [] \<and>
          (\<forall>c \<in> set (FindEmpty b).
             \<exists>ch. childSearch (length (FindEmpty b)) bp b g True bp 0 c = Some (Inr ch)) \<longrightarrow>
        impossibleBot_Turn bp b g =
          Some (Inr (bestCell (length (FindEmpty b)) bp b g True bp 0))"
  proof (intro allI impI)
    fix w
    assume a: "Conditions_FindWinner (conditions g) b = Inr w \<and> w \<noteq> bp \<and> w \<noteq> Next bp \<and>
          FindEmpty b \<noteq> [] \<and>
          (\<forall>c \<in> set (FindEmpty b).
             \<exists>ch. childSearch (length (FindEmpty b)) bp b g True bp 0 c = Some (Inr ch))"
    then have "minimax (Suc (length (FindEmpty b))) bp b g (fst (LastTurn g)) True bp 0 =
           Some (Inr ((projr (the (childSearch (length (FindEmpty b)) bp b g True bp 0
                                     (bestCell (length (FindEmpty b)) bp b g True bp 0))))
                        \<lparr>ch_cell := bestCell (length (FindEmpty b)) bp b g True bp 0\<rparr>))"
      using node [of w "length (FindEmpty b)" True bp 0 "fst (LastTurn g)"] le9 by simp
    then show "impossibleBot_Turn bp b g =
          Some (Inr (bestCell (length (FindEmpty b)) bp b g True bp 0))"
      by (simp add: impossibleBot_Turn_def)
  qed
  from p1 p2 p3 p4 p5 show ?thesis by blast
qed



theorem C4_minimax_scores_witness:
  "impossibleBot_Turn 1 [[1, 2, 1], [2, 2, 1], [0, 1, 0]] freshGame
     = Some (Inr \<lparr>Column = 2, Row = 2\<rparr>) \<and>
   childValue 2 1 [[1, 2, 1], [2, 2, 1], [0, 1, 0]] freshGame True 1 0 \<lparr>Column = 2, Row = 2\<rparr> = 9 \<and>
   childValue 2 1 [[1, 2, 1], [2, 2, 1], [0, 1, 0]] freshGame True 1 0 \<lparr>Column = 0, Row = 2\<rparr> = 0"
proof -
  let ?b = "[[1, 2, 1], [2, 2, 1], [0, 1, 0]] :: board"
  have M: "maxTurns freshGame = 9" by (simp add: freshGame_def)
  have sq: "square 3 ?b" by (simp add: square_def)
  have d: "(0 :: int) \<le> 0" "(0 :: int) + int 2 \<le> 10" by simp_all
  have e: "FindEmpty ?b = [\<lparr>Column = 0, Row = 2\<rparr>, \<lparr>Column = 2, Row = 2\<rparr>]" by code_simp
  have fw: "Conditions_FindWinner (conditions freshGame) ?b = Inr 0" by code_simp
  have nx: "(0 :: player) \<noteq> 1" "0 \<noteq> Next 1" by (simp_all add: Next_def PlayerOne_def PlayerTwo_def)
  have k1: "childSearch 2 1 ?b freshGame True 1 0 \<lparr>Column = 0, Row = 2\<rparr>
              = Some (Inr \<lparr>ch_cell = \<lparr>Column = 2, Row = 2\<rparr>, ch_depth = 2, ch_value = 0\<rparr>)"
    by code_simp
  have k2: "childSearch 2 1 ?b freshGame True 1 0 \<lparr>Column = 2, Row = 2\<rparr>
              = Some (Inr \<lparr>ch_cell = \<lparr>Column = 2, Row = 2\<rparr>, ch_depth = 1, ch_value = 9\<rparr>)"
    by code_simp
  have bc: "bestCell 2 1 ?b freshGame True 1 0 = \<lparr>Column = 2, Row = 2\<rparr>" by code_simp
  have len: "length (FindEmpty ?b) = 2" unfolding e by simp
  have ne: "FindEmpty ?b \<noteq> []" unfolding e by simp
  have kids: "\<forall>c \<in> set (FindEmpty ?b).
                \<exists>ch. childSearch (length (FindEmpty ?b)) 1 ?b freshGame True 1 0 c = Some (Inr ch)"
    unfolding len using k1 k2 by (simp add: e)
  from C4_minimax_scores [OF M sq d, of 1 undefined True 1]
  have "\<forall>w. Conditions_FindWinner (conditions freshGame) ?b = Inr w \<and> w \<noteq> 1 \<and> w \<noteq> Next 1 \<and>
          FindEmpty ?b \<noteq> [] \<and>
          (\<forall>c \<in> set (FindEmpty ?b).
             \<exists>ch. childSearch (length (FindEmpty ?b)) 1 ?b freshGame True 1 0 c = Some (Inr ch)) \<longrightarrow>
        impossibleBot_Turn 1 ?b freshGame =
          Some (Inr (bestCell (length (FindEmpty ?b)) 1 ?b freshGame True 1 0))"
    by blast
  with fw nx ne kids
  have "impossibleBot_Turn 1 ?b freshGame =
          Some (Inr (bestCell (length (FindEmpty ?b)) 1 ?b freshGame True 1 0))"
    by blast
  then have "impossibleBot_Turn 1 ?b freshGame = Some (Inr (bestCell 2 1 ?b freshGame True 1 0))"
    unfolding len .
  with bc k1 k2 show ?thesis by (simp add: childValue_def)
qed


section \<open>The standard conditions on a size-3 board\<close>

lemma scanLine3: "scanLine 0 [x, y, z] = line3 x y z"
  by (auto simp: line3_def)

lemma square3_cases:
  assumes "square 3 b"
  obtains a1 a2 a3 b1 b2 b3 c1 c2 c3 where "b = [[a1, a2, a3], [b1, b2, b3], [c1, c2, c3]]"
proof -
  have l3: "\<exists>x y z. xs = [x, y, z]" if "length xs = 3" for xs :: "'a list"
    using that by (auto simp: length_Suc_conv numeral_3_eq_3)
  from assms have "length b = 3" by (simp add: square_def)
  from l3 [OF this] obtain r1 r2 r3 where b: "b = [r1, r2, r3]" by blast
  with assms have "length r1 = 3" "length r2 = 3" "length r3 = 3" by (simp_all add: square_def)
  with l3 [of r1] l3 [of r2] l3 [of r3] b that show ?thesis by blast
qed

lemma firstWinner_valid:
  "\<forall>w \<in> set ws. IsValidOrZero w \<Longrightarrow> IsValidOrZero (firstWinner ws)"
  by (induction ws) (auto simp: IsValidOrZero_def)

lemma line3_valid:
  "IsValidOrZero x \<Longrightarrow> IsValidOrZero (line3 x y z)"
  by (auto simp: line3_def IsValidOrZero_def)

lemma firstWinner_append:
  "firstWinner (xs @ ys) = (if firstWinner xs > 0 then firstWinner xs else firstWinner ys)"
  by (induction xs) auto

lemma stdWinner3:
  assumes "validBoard [[a1, a2, a3], [b1, b2, b3], [c1, c2, c3]]"
  shows "Conditions_FindWinner standardConditions [[a1, a2, a3], [b1, b2, b3], [c1, c2, c3]] =
     Inr (firstWinner [line3 a1 a2 a3, line3 b1 b2 b3, line3 c1 c2 c3,
                       line3 a1 b1 c1, line3 a2 b2 c2, line3 a3 b3 c3,
                       line3 a1 b2 c3, line3 a3 b2 c1])"
proof -
  let ?b = "[[a1, a2, a3], [b1, b2, b3], [c1, c2, c3]]"
  from assms have v: "IsValidOrZero a1" "IsValidOrZero a2" "IsValidOrZero a3"
    "IsValidOrZero b1" "IsValidOrZero b2" "IsValidOrZero b3"
    "IsValidOrZero c1" "IsValidOrZero c2" "IsValidOrZero c3"
    by (simp_all add: validBoard_def)
  have h: "horizontal_FindWinner ?b = firstWinner [line3 a1 a2 a3, line3 b1 b2 b3, line3 c1 c2 c3]"
    by (simp add: horizontal_FindWinner_def findWinnerFromRow_def scanLine3 del: scanLine.simps firstWinner.simps)
  have up: "[0..<3] = [0, 1, 2]" by (simp add: upt_rec)
  have vv: "vertical_FindWinner ?b = firstWinner [line3 a1 b1 c1, line3 a2 b2 c2, line3 a3 b3 c3]"
    by (simp add: vertical_FindWinner_def findWinnerFromCol_def scanLine3 up del: scanLine.simps firstWinner.simps)
  have dl: "findWinnerFromLeft ?b = line3 a1 b2 c3"
    by (simp add: findWinnerFromLeft_def scanLine3 del: scanLine.simps)
  have dr: "findWinnerFromRight ?b = line3 a3 b2 c1"
    by (simp add: findWinnerFromRight_def scanLine3 del: scanLine.simps)
  have dd: "diagonal_FindWinner ?b = firstWinner [line3 a1 b2 c3, line3 a3 b2 c1]"
    by (simp add: diagonal_FindWinner_def dl dr)
  have vh: "IsValidOrZero (horizontal_FindWinner ?b)" unfolding h
    by (intro firstWinner_valid) (simp add: line3_valid v)
  have vvv: "IsValidOrZero (vertical_FindWinner ?b)" unfolding vv
    by (intro firstWinner_valid) (simp add: line3_valid v)
  have vd: "IsValidOrZero (diagonal_FindWinner ?b)" unfolding dd
    by (intro firstWinner_valid) (simp add: line3_valid v)
  have "Conditions_FindWinner standardConditions ?b =
          Inr (if horizontal_FindWinner ?b > 0 then horizontal_FindWinner ?b
               else if vertical_FindWinner ?b > 0 then vertical_FindWinner ?b
               else if diagonal_FindWinner ?b > 0 then diagonal_FindWinner ?b else 0)"
    using vh vvv vd
    by (simp add: Conditions_FindWinner_def standardConditions_def horizontalCondition_def
          verticalCondition_def diagonalCondition_def Let_def)
  also have "\<dots> = Inr (firstWinner ([line3 a1 a2 a3, line3 b1 b2 b3, line3 c1 c2 c3] @
                       [line3 a1 b1 c1, line3 a2 b2 c2, line3 a3 b3 c3] @
                       [line3 a1 b2 c3, line3 a3 b2 c1]))"
    unfolding firstWinner_append h [symmetric] vv [symmetric] dd [symmetric]
    by (simp add: word_gt_0)
  finally show ?thesis by simp
qed

lemma word_lt_3: "(w :: 8 word) < 3 \<Longrightarrow> w = 0 \<or> w = 1 \<or> w = 2"
proof -
  assume "w < 3"
  then have "unat w < 3" by (simp add: word_less_nat_alt)
  then consider "unat w = 0" | "unat w = 1" | "unat w = 2" by linarith
  then show ?thesis
  proof cases
    case 1
    from arg_cong [OF 1, of "of_nat :: nat \<Rightarrow> 8 word"] show ?thesis by simp
  next
    case 2
    from arg_cong [OF 2, of "of_nat :: nat \<Rightarrow> 8 word"] show ?thesis by simp
  next
    case 3
    from arg_cong [OF 3, of "of_nat :: nat \<Rightarrow> 8 word"] show ?thesis by simp
  qed
qed

lemma firstWinner_zero_iff: "firstWinner ws = 0 \<longleftrightarrow> (\<forall>w \<in> set ws. w = 0)"
  by (induction ws) (auto simp: word_gt_0)

lemma firstWinner_one_player:
  "p \<noteq> 0 \<Longrightarrow> \<forall>w \<in> set ws. w = p \<or> w = 0 \<Longrightarrow>
   firstWinner ws = (if p \<in> set ws then p else 0)"
  by (induction ws) (auto simp: word_gt_0)

lemma isWin3:
  "Conditions_IsWinningTurn standardConditions b t \<longleftrightarrow>
     horizontal_IsWinningTurn b t \<or> vertical_IsWinningTurn b t \<or> diagonal_IsWinningTurn b t"
  by (simp add: standardConditions_def horizontalCondition_def verticalCondition_def
        diagonalCondition_def)

lemma win_step:
  assumes sq: "square 3 b" and v: "validBoard b"
    and nw: "Conditions_FindWinner standardConditions b = Inr 0"
    and r: "Row c < 3" and cl: "Column c < 3" and e: "getCell b c = 0" and p: "IsValid p"
  shows "Conditions_FindWinner standardConditions (setCell b c p) =
           Inr (if Conditions_IsWinningTurn standardConditions (setCell b c p)
                     \<lparr>Cell = c, Player = p\<rparr> then p else 0)"
proof -
  from sq obtain a1 a2 a3 b1 b2 b3 c1 c2 c3 where
    b: "b = [[a1, a2, a3], [b1, b2, b3], [c1, c2, c3]]" by (rule square3_cases)
  from v have vs: "IsValidOrZero a1" "IsValidOrZero a2" "IsValidOrZero a3"
    "IsValidOrZero b1" "IsValidOrZero b2" "IsValidOrZero b3"
    "IsValidOrZero c1" "IsValidOrZero c2" "IsValidOrZero c3"
    by (simp_all add: validBoard_def b)
  from p have pv: "IsValidOrZero p" and pnz: "p \<noteq> 0"
    by (auto simp: IsValidOrZero_def IsValid_nonzero)
  from nw stdWinner3 [OF v [unfolded b]]
  have "firstWinner [line3 a1 a2 a3, line3 b1 b2 b3, line3 c1 c2 c3,
                       line3 a1 b1 c1, line3 a2 b2 c2, line3 a3 b3 c3,
                       line3 a1 b2 c3, line3 a3 b2 c1] = 0" by (simp add: b)
  then have L: "line3 a1 a2 a3 = 0" "line3 b1 b2 b3 = 0" "line3 c1 c2 c3 = 0"
    "line3 a1 b1 c1 = 0" "line3 a2 b2 c2 = 0" "line3 a3 b3 c3 = 0"
    "line3 a1 b2 c3 = 0" "line3 a3 b2 c1 = 0"
    unfolding firstWinner_zero_iff by simp_all
  obtain x y where c: "c = \<lparr>Column = x, Row = y\<rparr>" by (cases c) auto
  from r cl have xy: "y = 0 \<or> y = 1 \<or> y = 2" "x = 0 \<or> x = 1 \<or> x = 2"
    by (auto simp: c dest: word_lt_3)
  have p3: "line3 p u w = (if u = p \<and> w = p then p else 0)"
    "line3 u p w = (if u = p \<and> w = p then p else 0)"
    "line3 u w p = (if u = p \<and> w = p then p else 0)" for u w
    using pnz by (auto simp: line3_def)
  show ?thesis
    using xy
  proof (elim disjE)
    assume x: "x = 0" and y: "y = 0"
    with e have z: "a1 = 0" by (simp add: b c getCell_def)
    have nb: "setCell b \<lparr>Column = 0, Row = 0\<rparr> p = [[p, a2, a3], [b1, b2, b3], [c1, c2, c3]]"
      by (simp add: b setCell_def)
    have nv: "validBoard [[p, a2, a3], [b1, b2, b3], [c1, c2, c3]]"
      using vs pv by (simp add: validBoard_def)
    have w: "Conditions_IsWinningTurn standardConditions [[p, a2, a3], [b1, b2, b3], [c1, c2, c3]]
               \<lparr>Cell = \<lparr>Column = 0, Row = 0\<rparr>, Player = p\<rparr>
             \<longleftrightarrow> (a2 = p \<and> a3 = p) \<or> (b1 = p \<and> c1 = p) \<or> (b2 = p \<and> c3 = p)"
      by (auto simp: isWin3 horizontal_IsWinningTurn_def vertical_IsWinningTurn_def
            diagonal_IsWinningTurn_def isWinningTurnFromLeft_def isWinningTurnFromRight_def)
    show ?thesis
      unfolding c x y nb stdWinner3 [OF nv] w
      using L by (simp add: p3 pnz word_gt_0)
  next
    assume x: "x = 1" and y: "y = 0"
    with e have z: "a2 = 0" by (simp add: b c getCell_def)
    have nb: "setCell b \<lparr>Column = 1, Row = 0\<rparr> p = [[a1, p, a3], [b1, b2, b3], [c1, c2, c3]]"
      by (simp add: b setCell_def)
    have nv: "validBoard [[a1, p, a3], [b1, b2, b3], [c1, c2, c3]]"
      using vs pv by (simp add: validBoard_def)
    have w: "Conditions_IsWinningTurn standardConditions [[a1, p, a3], [b1, b2, b3], [c1, c2, c3]]
               \<lparr>Cell = \<lparr>Column = 1, Row = 0\<rparr>, Player = p\<rparr>
             \<longleftrightarrow> (a1 = p \<and> a3 = p) \<or> (b2 = p \<and> c2 = p)"
      by (auto simp: isWin3 horizontal_IsWinningTurn_def vertical_IsWinningTurn_def
            diagonal_IsWinningTurn_def isWinningTurnFromLeft_def isWinningTurnFromRight_def)
    show ?thesis
      unfolding c x y nb stdWinner3 [OF nv] w
      using L by (simp add: p3 pnz word_gt_0)
  next
    assume x: "x = 2" and y: "y = 0"
    with e have z: "a3 = 0" by (simp add: b c getCell_def)
    have nb: "setCell b \<lparr>Column = 2, Row = 0\<rparr> p = [[a1, a2, p], [b1, b2, b3], [c1, c2, c3]]"
      by (simp add: b setCell_def)
    have nv: "validBoard [[a1, a2, p], [b1, b2, b3], [c1, c2, c3]]"
      using vs pv by (simp add: validBoard_def)
    have w: "Conditions_IsWinningTurn standardConditions [[a1, a2, p], [b1, b2, b3], [c1, c2, c3]]
               \<lparr>Cell = \<lparr>Column = 2, Row = 0\<rparr>, Player = p\<rparr>
             \<longleftrightarrow> (a1 = p \<and> a2 = p) \<or> (b3 = p \<and> c3 = p) \<or> (b2 = p \<and> c1 = p)"
      by (auto simp: isWin3 horizontal_IsWinningTurn_def vertical_IsWinningTurn_def
            diagonal_IsWinningTurn_def isWinningTurnFromLeft_def isWinningTurnFromRight_def)
    show ?thesis
      unfolding c x y nb stdWinner3 [OF nv] w
      using L by (simp add: p3 pnz word_gt_0)
  next
    assume x: "x = 0" and y: "y = 1"
    with e have z: "b1 = 0" by (simp add: b c getCell_def)
    have nb: "setCell b \<lparr>Column = 0, Row = 1\<rparr> p = [[a1, a2, a3], [p, b2, b3], [c1, c2, c3]]"
      by (simp add: b setCell_def)
    have nv: "validBoard [[a1, a2, a3], [p, b2, b3], [c1, c2, c3]]"
      using vs pv by (simp add: validBoard_def)
    have w: "Conditions_IsWinningTurn standardConditions [[a1, a2, a3], [p, b2, b3], [c1, c2, c3]]
               \<lparr>Cell = \<lparr>Column = 0, Row = 1\<rparr>, Player = p\<rparr>
             \<longleftrightarrow> (b2 = p \<and> b3 = p) \<or> (a1 = p \<and> c1 = p)"
      by (auto simp: isWin3 horizontal_IsWinningTurn_def vertical_IsWinningTurn_def
            diagonal_IsWinningTurn_def isWinningTurnFromLeft_def isWinningTurnFromRight_def)
    show ?thesis
      unfolding c x y nb stdWinner3 [OF nv] w
      using L by (simp add: p3 pnz word_gt_0)
  next
    assume x: "x = 1" and y: "y = 1"
    with e have z: "b2 = 0" by (simp add: b c getCell_def)
    have nb: "setCell b \<lparr>Column = 1, Row = 1\<rparr> p = [[a1, a2, a3], [b1, p, b3], [c1, c2, c3]]"
      by (simp add: b setCell_def)
    have nv: "validBoard [[a1, a2, a3], [b1, p, b3], [c1, c2, c3]]"
      using vs pv by (simp add: validBoard_def)
    have w: "Conditions_IsWinningTurn standardConditions [[a1, a2, a3], [b1, p, b3], [c1, c2, c3]]
               \<lparr>Cell = \<lparr>Column = 1, Row = 1\<rparr>, Player = p\<rparr>
             \<longleftrightarrow> (b1 = p \<and> b3 = p) \<or> (a2 = p \<and> c2 = p) \<or> (a1 = p \<and> c3 = p) \<or> (a3 = p \<and> c1 = p)"
      by (auto simp: isWin3 horizontal_IsWinningTurn_def vertical_IsWinningTurn_def
            diagonal_IsWinningTurn_def isWinningTurnFromLeft_def isWinningTurnFromRight_def)
    show ?thesis
      unfolding c x y nb stdWinner3 [OF nv] w
      using L by (simp add: p3 pnz word_gt_0)
  next
    assume x: "x = 2" and y: "y = 1"
    with e have z: "b3 = 0" by (simp add: b c getCell_def)
    have nb: "setCell b \<lparr>Column = 2, Row = 1\<rparr> p = [[a1, a2, a3], [b1, b2, p], [c1, c2, c3]]"
      by (simp add: b setCell_def)
    have nv: "validBoard [[a1, a2, a3], [b1, b2, p], [c1, c2, c3]]"
      using vs pv by (simp add: validBoard_def)
    have w: "Conditions_IsWinningTurn standardConditions [[a1, a2, a3], [b1, b2, p], [c1, c2, c3]]
               \<lparr>Cell = \<lparr>Column = 2, Row = 1\<rparr>, Player = p\<rparr>
             \<longleftrightarrow> (b1 = p \<and> b2 = p) \<or> (a3 = p \<and> c3 = p)"
      by (auto simp: isWin3 horizontal_IsWinningTurn_def vertical_IsWinningTurn_def
            diagonal_IsWinningTurn_def isWinningTurnFromLeft_def isWinningTurnFromRight_def)
    show ?thesis
      unfolding c x y nb stdWinner3 [OF nv] w
      using L by (simp add: p3 pnz word_gt_0)
  next
    assume x: "x = 0" and y: "y = 2"
    with e have z: "c1 = 0" by (simp add: b c getCell_def)
    have nb: "setCell b \<lparr>Column = 0, Row = 2\<rparr> p = [[a1, a2, a3], [b1, b2, b3], [p, c2, c3]]"
      by (simp add: b setCell_def)
    have nv: "validBoard [[a1, a2, a3], [b1, b2, b3], [p, c2, c3]]"
      using vs pv by (simp add: validBoard_def)
    have w: "Conditions_IsWinningTurn standardConditions [[a1, a2, a3], [b1, b2, b3], [p, c2, c3]]
               \<lparr>Cell = \<lparr>Column = 0, Row = 2\<rparr>, Player = p\<rparr>
             \<longleftrightarrow> (c2 = p \<and> c3 = p) \<or> (a1 = p \<and> b1 = p) \<or> (a3 = p \<and> b2 = p)"
      by (auto simp: isWin3 horizontal_IsWinningTurn_def vertical_IsWinningTurn_def
            diagonal_IsWinningTurn_def isWinningTurnFromLeft_def isWinningTurnFromRight_def)
    show ?thesis
      unfolding c x y nb stdWinner3 [OF nv] w
      using L by (simp add: p3 pnz word_gt_0)
  next
    assume x: "x = 1" and y: "y = 2"
    with e have z: "c2 = 0" by (simp add: b c getCell_def)
    have nb: "setCell b \<lparr>Column = 1, Row = 2\<rparr> p = [[a1, a2, a3], [b1, b2, b3], [c1, p, c3]]"
      by (simp add: b setCell_def)
    have nv: "validBoard [[a1, a2, a3], [b1, b2, b3], [c1, p, c3]]"
      using vs pv by (simp add: validBoard_def)
    have w: "Conditions_IsWinningTurn standardConditions [[a1, a2, a3], [b1, b2, b3], [c1, p, c3]]
               \<lparr>Cell = \<lparr>Column = 1, Row = 2\<rparr>, Player = p\<rparr>
             \<longleftrightarrow> (c1 = p \<and> c3 = p) \<or> (a2 = p \<and> b2 = p)"
      by (auto simp: isWin3 horizontal_IsWinningTurn_def vertical_IsWinningTurn_def
            diagonal_IsWinningTurn_def isWinningTurnFromLeft_def isWinningTurnFromRight_def)
    show ?thesis
      unfolding c x y nb stdWinner3 [OF nv] w
      using L by (simp add: p3 pnz word_gt_0)
  next
    assume x: "x = 2" and y: "y = 2"
    with e have z: "c3 = 0" by (simp add: b c getCell_def)
    have nb: "setCell b \<lparr>Column = 2, Row = 2\<rparr> p = [[a1, a2, a3], [b1, b2, b3], [c1, c2, p]]"
      by (simp add: b setCell_def)
    have nv: "validBoard [[a1, a2, a3], [b1, b2, b3], [c1, c2, p]]"
      using vs pv by (simp add: validBoard_def)
    have w: "Conditions_IsWinningTurn standardConditions [[a1, a2, a3], [b1, b2, b3], [c1, c2, p]]
               \<lparr>Cell = \<lparr>Column = 2, Row = 2\<rparr>, Player = p\<rparr>
             \<longleftrightarrow> (c1 = p \<and> c2 = p) \<or> (a3 = p \<and> b3 = p) \<or> (a1 = p \<and> b2 = p)"
      by (auto simp: isWin3 horizontal_IsWinningTurn_def vertical_IsWinningTurn_def
            diagonal_IsWinningTurn_def isWinningTurnFromLeft_def isWinningTurnFromRight_def)
    show ?thesis
      unfolding c x y nb stdWinner3 [OF nv] w
      using L by (simp add: p3 pnz word_gt_0)
  qed
qed

section \<open>Empty cells of a square board\<close>

lemma in_set_enumerate_nth:
  "x \<in> set (enumerate k xs) \<longleftrightarrow> (\<exists>i < length xs. x = (k + i, xs ! i))"
proof
  assume "x \<in> set (enumerate k xs)"
  then have "k \<le> fst x" "fst x < length xs + k" "xs ! (fst x - k) = snd x"
    by (simp_all add: in_set_enumerate_eq)
  then show "\<exists>i < length xs. x = (k + i, xs ! i)"
    by (intro exI [of _ "fst x - k"]) (auto simp: prod_eq_iff)
next
  assume "\<exists>i < length xs. x = (k + i, xs ! i)"
  then show "x \<in> set (enumerate k xs)" by (auto simp: in_set_enumerate_eq)
qed

lemma set_emptyRow:
  "c \<in> set (map (\<lambda>(col, p). \<lparr>Column = of_nat col, Row = of_nat row\<rparr>)
               (filter (\<lambda>(col, p). p = 0) (enumerate k cols))) \<longleftrightarrow>
     (\<exists>j < length cols. cols ! j = 0 \<and> c = \<lparr>Column = of_nat (k + j), Row = of_nat row\<rparr>)"
proof -
  have "c \<in> set (map (\<lambda>(col, p). \<lparr>Column = of_nat col, Row = of_nat row\<rparr>)
               (filter (\<lambda>(col, p). p = 0) (enumerate k cols))) \<longleftrightarrow>
        (\<exists>x \<in> set (enumerate k cols). snd x = 0 \<and> c = \<lparr>Column = of_nat (fst x), Row = of_nat row\<rparr>)"
    by (force simp: image_iff)
  also have "\<dots> \<longleftrightarrow> (\<exists>j < length cols. cols ! j = 0 \<and> c = \<lparr>Column = of_nat (k + j), Row = of_nat row\<rparr>)"
    unfolding Bex_def in_set_enumerate_nth by (auto simp del: of_nat_add)
  finally show ?thesis .
qed

lemma set_emptyRows:
  "c \<in> set (concat (map (\<lambda>(row, cols).
        map (\<lambda>(col, p). \<lparr>Column = of_nat col, Row = of_nat row\<rparr>)
            (filter (\<lambda>(col, p). p = 0) (enumerate 0 cols)))
       (enumerate k rows))) \<longleftrightarrow>
     (\<exists>i < length rows. \<exists>j < length (rows ! i). rows ! i ! j = 0 \<and>
        c = \<lparr>Column = of_nat j, Row = of_nat (k + i)\<rparr>)"
proof -
  have "c \<in> set (concat (map (\<lambda>(row, cols).
        map (\<lambda>(col, p). \<lparr>Column = of_nat col, Row = of_nat row\<rparr>)
            (filter (\<lambda>(col, p). p = 0) (enumerate 0 cols)))
       (enumerate k rows))) \<longleftrightarrow>
     (\<exists>x \<in> set (enumerate k rows).
        c \<in> set (map (\<lambda>(col, p). \<lparr>Column = of_nat col, Row = of_nat (fst x)\<rparr>)
                    (filter (\<lambda>(col, p). p = 0) (enumerate 0 (snd x)))))"
    by (force simp: case_prod_beta)
  also have "\<dots> \<longleftrightarrow> (\<exists>i < length rows. \<exists>j < length (rows ! i). rows ! i ! j = 0 \<and>
        c = \<lparr>Column = of_nat j, Row = of_nat (k + i)\<rparr>)"
    unfolding set_emptyRow Bex_def in_set_enumerate_nth by (auto simp del: of_nat_add)
  finally show ?thesis .
qed

lemma set_FindEmpty:
  "c \<in> set (FindEmpty b) \<longleftrightarrow>
     (\<exists>i < length b. \<exists>j < length (b ! i). b ! i ! j = 0 \<and>
        c = \<lparr>Column = of_nat j, Row = of_nat i\<rparr>)"
  unfolding FindEmpty_def set_emptyRows by simp

lemma FindEmpty_square_iff:
  assumes sq: "square n b" and n: "n \<le> 256"
  shows "c \<in> set (FindEmpty b) \<longleftrightarrow>
           unat (Row c) < n \<and> unat (Column c) < n \<and> getCell b c = 0"
proof
  assume "c \<in> set (FindEmpty b)"
  then obtain i j where ij: "i < length b" "j < length (b ! i)" "b ! i ! j = 0"
    "c = \<lparr>Column = of_nat j, Row = of_nat i\<rparr>" by (auto simp: set_FindEmpty)
  from sq ij(1) have lb: "length b = n" "length (b ! i) = n" by (simp_all add: square_def)
  with ij n have "unat (of_nat i :: 8 word) = i" "unat (of_nat j :: 8 word) = j"
    by (simp_all add: unat_of_nat)
  with ij lb show "unat (Row c) < n \<and> unat (Column c) < n \<and> getCell b c = 0"
    by (simp add: getCell_def)
next
  assume a: "unat (Row c) < n \<and> unat (Column c) < n \<and> getCell b c = 0"
  from sq a have lb: "length b = n" "length (b ! unat (Row c)) = n"
    by (simp_all add: square_def)
  have "c = \<lparr>Column = of_nat (unat (Column c)), Row = of_nat (unat (Row c))\<rparr>" by simp
  with a lb show "c \<in> set (FindEmpty b)"
    unfolding set_FindEmpty getCell_def
    by (intro exI [of _ "unat (Row c)"] conjI exI [of _ "unat (Column c)"]) simp_all
qed

lemma length_emptyRow:
  "length (filter (\<lambda>(col, p). p = 0) (enumerate k cols)) = length (filter (\<lambda>p. p = 0) cols)"
  by (induction cols arbitrary: k) simp_all

lemma length_emptyRows:
  "length (concat (map (\<lambda>(row, cols).
        map (\<lambda>(col, p). \<lparr>Column = of_nat col, Row = of_nat row\<rparr>)
            (filter (\<lambda>(col, p). p = 0) (enumerate 0 cols)))
       (enumerate k rows))) = length (filter (\<lambda>p. p = 0) (concat rows))"
proof (induction rows arbitrary: k)
  case Nil
  show ?case by simp
next
  case (Cons cols rows)
  have "length (filter (\<lambda>(col, p). p = 0) (enumerate 0 cols))
          = length (filter (\<lambda>p. p = 0) cols)"
    by (rule length_emptyRow)
  with Cons.IH [of "Suc k"] show ?case by simp
qed

lemma length_FindEmpty: "length (FindEmpty b) = length (filter (\<lambda>p. p = 0) (concat b))"
  unfolding FindEmpty_def by (rule length_emptyRows)

lemma FindEmpty_plus_occupied:
  "square n b \<Longrightarrow> length (FindEmpty b) + occupiedCount b = n * n"
proof -
  assume sq: "square n b"
  have "length (filter (\<lambda>p. p = 0) (concat b)) + length (filter (\<lambda>p. \<not> p = 0) (concat b))
          = length (concat b)"
    by (rule sum_length_filter_compl)
  moreover have "length (concat b) = length b * n"
    using sq by (intro length_concat_square) (simp add: square_def)
  ultimately show ?thesis using sq by (simp add: length_FindEmpty occupiedCount_def square_def)
qed

lemma length_FindEmpty_setCell:
  assumes sq: "square n b" and n: "n \<le> 256" and c: "c \<in> set (FindEmpty b)" and p: "p \<noteq> 0"
  shows "Suc (length (FindEmpty (setCell b c p))) = length (FindEmpty b)"
proof -
  from c have in_b: "unat (Row c) < n" "unat (Column c) < n" "getCell b c = 0"
    using FindEmpty_square_iff [OF sq n] by simp_all
  from sq in_b have lb: "length b = n" "length (b ! unat (Row c)) = n"
    by (simp_all add: square_def)
  have "occupiedCount (setCell b c p) = Suc (occupiedCount b)"
    using in_b lb p by (intro occupiedCount_setCell) simp_all
  moreover have "length (FindEmpty (setCell b c p)) + occupiedCount (setCell b c p) = n * n"
    using sq by (intro FindEmpty_plus_occupied square_setCell)
  moreover have "length (FindEmpty b) + occupiedCount b = n * n"
    using sq by (rule FindEmpty_plus_occupied)
  ultimately show ?thesis by simp
qed

lemma validBoard_setCell:
  "validBoard b \<Longrightarrow> IsValidOrZero p \<Longrightarrow> validBoard (setCell b c p)"
proof -
  assume v: "validBoard b" and p: "IsValidOrZero p"
  show ?thesis
  proof (cases "unat (Row c) < length b")
    case True
    have row: "\<forall>q \<in> set ((b ! unat (Row c))[unat (Column c) := p]). IsValidOrZero q"
    proof
      fix q assume "q \<in> set ((b ! unat (Row c))[unat (Column c) := p])"
      then have "q = p \<or> q \<in> set (b ! unat (Row c))"
        using set_update_subset_insert [of "b ! unat (Row c)" "unat (Column c)" p] by auto
      with v p True show "IsValidOrZero q" by (auto simp: validBoard_def)
    qed
    show ?thesis unfolding validBoard_def setCell_def
    proof
      fix cols assume "cols \<in> set (b[unat (Row c) := (b ! unat (Row c))[unat (Column c) := p]])"
      then have "cols = (b ! unat (Row c))[unat (Column c) := p] \<or> cols \<in> set b"
        using set_update_subset_insert [of b "unat (Row c)"] by auto
      with row v show "\<forall>p \<in> set cols. IsValidOrZero p" by (auto simp: validBoard_def)
    qed
  next
    case False
    with v show ?thesis by (simp add: setCell_def list_update_beyond)
  qed
qed

lemma std_FindWinner_ok:
  assumes "square 3 b" and "validBoard b"
  shows "\<exists>w. Conditions_FindWinner standardConditions b = Inr w \<and> IsValidOrZero w"
proof -
  from assms(1) obtain a1 a2 a3 b1 b2 b3 c1 c2 c3 where
    b: "b = [[a1, a2, a3], [b1, b2, b3], [c1, c2, c3]]" by (rule square3_cases)
  from assms(2) have vs: "IsValidOrZero a1" "IsValidOrZero a2" "IsValidOrZero a3"
    "IsValidOrZero b1" "IsValidOrZero b2" "IsValidOrZero b3"
    "IsValidOrZero c1" "IsValidOrZero c2" "IsValidOrZero c3"
    by (simp_all add: validBoard_def b)
  have "IsValidOrZero (firstWinner [line3 a1 a2 a3, line3 b1 b2 b3, line3 c1 c2 c3,
                       line3 a1 b1 c1, line3 a2 b2 c2, line3 a3 b3 c3,
                       line3 a1 b2 c3, line3 a3 b2 c1])"
    by (intro firstWinner_valid) (simp add: line3_valid vs)
  with stdWinner3 [OF assms(2) [unfolded b]] b show ?thesis by simp
qed

section \<open>The search and the outcome of a position\<close>

lemma mono_sgn_int: "mono (sgn :: int \<Rightarrow> int)"
  by (auto simp: mono_def sgn_if)

lemma sgn_bestValue:
  assumes "vs \<noteq> []"
  shows "sgn (bestValue mx vs) = bestValue mx (map sgn vs)"
proof -
  have f: "finite (set vs)" "set vs \<noteq> {}" using assms by simp_all
  show ?thesis
    using mono_Max_commute [OF mono_sgn_int f] mono_Min_commute [OF mono_sgn_int f]
    by (simp add: bestValue_def)
qed

lemma Next_Next: "IsValid p \<Longrightarrow> Next (Next p) = p"
  by (auto simp: IsValid_def Next_def PlayerOne_def PlayerTwo_def)

lemma IsValid_cases: "IsValid p \<Longrightarrow> IsValidOrZero w \<Longrightarrow> w = 0 \<or> w = p \<or> w = Next p"
  by (auto simp: IsValid_def IsValidOrZero_def Next_def PlayerOne_def PlayerTwo_def)

lemma minimax_node_outcome:
  assumes g: "maxTurns g = 9"
    and fw: "Conditions_FindWinner (conditions g) b = Inr w" "w \<noteq> bp" "w \<noteq> Next bp"
    and ne: "FindEmpty b \<noteq> []"
    and child: "\<forall>c \<in> set (FindEmpty b).
                  \<exists>r. childSearch n bp b g mx pl d c = Some (Inr r) \<and> sgn (ch_value r) = out c"
    and d: "0 \<le> d" "d + int n \<le> 10"
  shows "\<exists>r. minimax (Suc n) bp b g lt mx pl d = Some (Inr r) \<and>
             ch_cell r \<in> set (FindEmpty b) \<and>
             sgn (ch_value r) = bestValue mx (map out (FindEmpty b)) \<and>
             sgn (ch_value r) = out (ch_cell r)"
proof -
  let ?cands = "FindEmpty b"
  from child have kids: "\<forall>c \<in> set ?cands. \<exists>ch. childSearch n bp b g mx pl d c = Some (Inr ch)"
    by blast
  have cv: "sgn (childValue n bp b g mx pl d c) = out c" if "c \<in> set ?cands" for c
    using child that by (auto simp: childValue_def)
  have bnd: "\<bar>childValue n bp b g mx pl d c\<bar> < (maxTurns g + 1)\<^sup>2" if "c \<in> set ?cands" for c
  proof -
    from kids that obtain r where r: "childSearch n bp b g mx pl d c = Some (Inr r)" by blast
    have "\<bar>ch_value r\<bar> \<le> maxTurns g + 1"
      using _ _ _ r [unfolded childSearch_def]
      by (rule minimax_value_bound) (use d g in simp_all)
    with r g show ?thesis by (simp add: childValue_def)
  qed
  then have bound: "\<forall>c \<in> set ?cands. \<bar>childValue n bp b g mx pl d c\<bar> < (maxTurns g + 1)\<^sup>2"
    by blast
  let ?bc = "bestCell n bp b g mx pl d"
  from minimax_internal [OF fw ne kids bound, of lt]
  have m: "minimax (Suc n) bp b g lt mx pl d =
         Some (Inr ((projr (the (childSearch n bp b g mx pl d ?bc)))\<lparr>ch_cell := ?bc\<rparr>))"
    and bv: "childValue n bp b g mx pl d ?bc
         = bestValue mx (map (childValue n bp b g mx pl d) ?cands)"
    and bc: "?bc \<in> set ?cands" by simp_all
  from kids bc obtain ch where ch: "childSearch n bp b g mx pl d ?bc = Some (Inr ch)" by blast
  then have v: "ch_value ch = childValue n bp b g mx pl d ?bc"
    by (simp add: childValue_def)
  with bv have "sgn (ch_value ch) = sgn (bestValue mx (map (childValue n bp b g mx pl d) ?cands))"
    by simp
  also have "\<dots> = bestValue mx (map sgn (map (childValue n bp b g mx pl d) ?cands))"
    using ne by (intro sgn_bestValue) simp
  also have "map sgn (map (childValue n bp b g mx pl d) ?cands) = map out ?cands"
    using cv by simp
  finally have "sgn (ch_value ch) = bestValue mx (map out ?cands)" .
  moreover have "sgn (ch_value ch) = out ?bc" using cv [OF bc] v by simp
  ultimately show ?thesis using m ch bc by simp
qed

lemma child_board:
  assumes "square 3 b" and "validBoard b" and "IsValid pl" and "c \<in> set (FindEmpty b)"
  shows "square 3 (setCell b c pl)" and "validBoard (setCell b c pl)"
    and "Suc (length (FindEmpty (setCell b c pl))) = length (FindEmpty b)"
proof -
  show "square 3 (setCell b c pl)" using assms(1) by (rule square_setCell)
  show "validBoard (setCell b c pl)"
    using assms(2,3) by (intro validBoard_setCell) (simp_all add: IsValidOrZero_def)
  show "Suc (length (FindEmpty (setCell b c pl))) = length (FindEmpty b)"
    using assms(1) _ assms(4) IsValid_nonzero [OF assms(3)]
    by (rule length_FindEmpty_setCell) simp
qed

lemma minimax_outcome:
  assumes g: "conditions g = standardConditions" "maxTurns g = 9" and bp: "IsValid bp"
  shows "square 3 b \<Longrightarrow> validBoard b \<Longrightarrow> IsValid pl \<Longrightarrow> length (FindEmpty b) < n \<Longrightarrow>
         0 \<le> d \<Longrightarrow> d + int n \<le> 10 \<Longrightarrow>
         \<exists>r. minimax n bp b g lt mx pl d = Some (Inr r) \<and>
             sgn (ch_value r) = outcome n bp b mx pl"
proof (induction n arbitrary: b lt mx pl d)
  case 0
  then show ?case by simp
next
  case (Suc n)
  from std_FindWinner_ok [OF Suc.prems(1,2)] obtain w where
    fw: "Conditions_FindWinner standardConditions b = Inr w" by blast
  have fwg: "Conditions_FindWinner (conditions g) b = Inr w" using fw g by simp
  have d9: "d \<le> 9" using Suc.prems(6) by simp
  consider "w = bp" | "w \<noteq> bp" "w = Next bp" | "w \<noteq> bp" "w \<noteq> Next bp" "FindEmpty b = []"
    | "w \<noteq> bp" "w \<noteq> Next bp" "FindEmpty b \<noteq> []" by blast
  then show ?case
  proof cases
    case 1
    with fw fwg g d9 show ?thesis by (simp add: Let_def)
  next
    case 2
    with fw fwg g d9 show ?thesis by (simp add: Let_def)
  next
    case 3
    with fw fwg show ?thesis by (simp add: Let_def)
  next
    case 4
    let ?out = "\<lambda>c. outcome n bp (setCell b c pl) (\<not> mx) (Next pl)"
    have cp: "Copy b = b" using Suc.prems(1) by (rule Copy_square)
    have child: "\<forall>c \<in> set (FindEmpty b).
                   \<exists>r. childSearch n bp b g mx pl d c = Some (Inr r) \<and> sgn (ch_value r) = ?out c"
    proof
      fix c assume c: "c \<in> set (FindEmpty b)"
      note cb = child_board [OF Suc.prems(1,2,3) c]
      from cb(3) Suc.prems(4) have l: "length (FindEmpty (setCell b c pl)) < n" by simp
      have "\<exists>r. minimax n bp (setCell b c pl) g \<lparr>Cell = c, Player = pl\<rparr> (\<not> mx) (Next pl) (d + 1)
                  = Some (Inr r) \<and> sgn (ch_value r) = ?out c"
        using cb(1,2) _ l by (rule Suc.IH) (use Suc.prems in \<open>simp_all add: IsValid_Next\<close>)
      then show "\<exists>r. childSearch n bp b g mx pl d c = Some (Inr r) \<and> sgn (ch_value r) = ?out c"
        by (simp add: childSearch_def cp)
    qed
    from minimax_node_outcome [OF g(2) fwg 4 child, of lt] Suc.prems(5,6)
    obtain r where "minimax (Suc n) bp b g lt mx pl d = Some (Inr r)"
      "sgn (ch_value r) = bestValue mx (map ?out (FindEmpty b))" by auto
    with fw 4 show ?thesis by simp
  qed
qed

text \<open>
  At a node without a winner and with an empty cell, the search returns one of the empty
  cells, and its value has the sign of the node's outcome and of the outcome of the
  position that marking the returned cell leads to.
\<close>

lemma minimax_choice:
  assumes g: "conditions g = standardConditions" "maxTurns g = 9" and bp: "IsValid bp"
    and b: "square 3 b" "validBoard b" and pl: "IsValid pl"
    and fw: "Conditions_FindWinner standardConditions b = Inr 0"
    and ne: "FindEmpty b \<noteq> []"
  shows "\<exists>r. minimax (Suc (length (FindEmpty b))) bp b g lt mx pl 0 = Some (Inr r) \<and>
             ch_cell r \<in> set (FindEmpty b) \<and>
             sgn (ch_value r) = outcome (Suc (length (FindEmpty b))) bp b mx pl \<and>
             sgn (ch_value r)
               = outcome (length (FindEmpty b)) bp (setCell b (ch_cell r) pl) (\<not> mx) (Next pl)"
proof -
  let ?n = "length (FindEmpty b)"
  let ?out = "\<lambda>c. outcome ?n bp (setCell b c pl) (\<not> mx) (Next pl)"
  have n9: "?n \<le> 9" using length_FindEmpty_le [OF b(1)] by simp
  have z: "(0 :: player) \<noteq> bp" "0 \<noteq> Next bp"
    using bp IsValid_Next [OF bp] by (auto dest: IsValid_nonzero)
  have fwg: "Conditions_FindWinner (conditions g) b = Inr 0" using fw g by simp
  have cp: "Copy b = b" using b(1) by (rule Copy_square)
  have child: "\<forall>c \<in> set (FindEmpty b).
                 \<exists>r. childSearch ?n bp b g mx pl 0 c = Some (Inr r) \<and> sgn (ch_value r) = ?out c"
  proof
    fix c assume c: "c \<in> set (FindEmpty b)"
    note cb = child_board [OF b pl c]
    from cb(3) have l: "length (FindEmpty (setCell b c pl)) < ?n" by simp
    have "\<exists>r. minimax ?n bp (setCell b c pl) g \<lparr>Cell = c, Player = pl\<rparr> (\<not> mx) (Next pl) (0 + 1)
                = Some (Inr r) \<and> sgn (ch_value r) = ?out c"
      using g bp cb(1,2) _ l
      by (rule minimax_outcome) (use n9 pl in \<open>simp_all add: IsValid_Next\<close>)
    then show "\<exists>r. childSearch ?n bp b g mx pl 0 c = Some (Inr r) \<and> sgn (ch_value r) = ?out c"
      by (simp add: childSearch_def cp)
  qed
  from minimax_node_outcome [OF g(2) fwg z ne child, of lt] n9
  obtain r where r: "minimax (Suc ?n) bp b g lt mx pl 0 = Some (Inr r)"
    "ch_cell r \<in> set (FindEmpty b)"
    "sgn (ch_value r) = bestValue mx (map ?out (FindEmpty b))"
    "sgn (ch_value r) = ?out (ch_cell r)" by auto
  from r(3) fw z ne have "sgn (ch_value r) = outcome (Suc ?n) bp b mx pl" by simp
  with r show ?thesis by blast
qed

section \<open>Soundness of the strategy check\<close>

lemma bestValue_min_nonneg:
  "vs \<noteq> [] \<Longrightarrow> \<forall>v \<in> set vs. 0 \<le> v \<Longrightarrow> 0 \<le> bestValue False vs"
  by (simp add: bestValue_def)

lemma bestValue_max_ge:
  "v \<in> set vs \<Longrightarrow> v \<le> bestValue True vs"
  by (simp add: bestValue_def)

lemma bestValue_max_ge_map:
  "x \<in> set xs \<Longrightarrow> f x \<le> bestValue True (map f xs)"
  by (rule bestValue_max_ge) simp

lemma outcome_opp_nonneg:
  assumes bp: "IsValid bp"
    and safe: "\<forall>w. Conditions_FindWinner standardConditions b = Inr w \<longrightarrow> w \<noteq> bp \<longrightarrow>
                 w \<noteq> Next bp \<longrightarrow> FindEmpty b \<noteq> [] \<longrightarrow>
                 (\<forall>c \<in> set (FindEmpty b). 0 \<le> outcome k bp (setCell b c (Next bp)) True bp)"
    and nl: "Conditions_FindWinner standardConditions b \<noteq> Inr (Next bp) \<or> Next bp = bp"
  shows "0 \<le> outcome (Suc k) bp b False (Next bp)"
proof (cases "Conditions_FindWinner standardConditions b")
  case (Inl e)
  then show ?thesis by simp
next
  case (Inr w)
  consider "w = bp" | "w \<noteq> bp" "w = Next bp" | "w \<noteq> bp" "w \<noteq> Next bp" "FindEmpty b = []"
    | "w \<noteq> bp" "w \<noteq> Next bp" "FindEmpty b \<noteq> []" by blast
  then show ?thesis
  proof cases
    case 1
    with Inr show ?thesis by simp
  next
    case 2
    with Inr nl show ?thesis by simp
  next
    case 3
    with Inr show ?thesis by simp
  next
    case 4
    with safe Inr have "\<forall>c \<in> set (FindEmpty b). 0 \<le> outcome k bp (setCell b c (Next bp)) True bp"
      by blast
    then have "0 \<le> bestValue False
                 (map (\<lambda>c. outcome k bp (setCell b c (Next bp)) True (Next (Next bp))) (FindEmpty b))"
      using 4(3) by (intro bestValue_min_nonneg) (simp_all add: Next_Next [OF bp])
    with Inr 4 show ?thesis by simp
  qed
qed

lemma safe_sound:
  assumes bp: "IsValid bp"
  shows "safeBot bp b s \<Longrightarrow> 0 \<le> outcome n bp b True bp"
    and "safeOpp bp b cs ss \<Longrightarrow> \<forall>c \<in> set cs. 0 \<le> outcome n bp (setCell b c (Next bp)) True bp"
  using bp
proof (induction bp b s and bp b cs ss arbitrary: n and n rule: safeBot_safeOpp.induct)
  case (1 bp b i ss)
  let ?cands = "FindEmpty b"
  let ?b2 = "setCell b (?cands ! i) bp"
  from "1.prems" have bp: "IsValid bp" and sb: "safeBot bp b (Reply i ss)" by simp_all
  show ?case
  proof (cases n)
    case 0
    then show ?thesis by simp
  next
    case (Suc m)
    from sb obtain w where fw: "Conditions_FindWinner standardConditions b = Inr w"
      by (cases "Conditions_FindWinner standardConditions b") auto
    consider "w = bp" | "w \<noteq> bp" "w = Next bp" | "w \<noteq> bp" "w \<noteq> Next bp" "?cands = []"
      | "w \<noteq> bp" "w \<noteq> Next bp" "?cands \<noteq> []" by blast
    then show ?thesis
    proof cases
      case 1
      with fw Suc show ?thesis by simp
    next
      case 2
      with fw sb show ?thesis by simp
    next
      case 3
      with fw Suc show ?thesis by simp
    next
      case 4
      from sb fw 4 have il: "i < length ?cands"
        and s2: "case Conditions_FindWinner standardConditions ?b2 of
               Inl err \<Rightarrow> False
             | Inr w2 \<Rightarrow>
                 if w2 = bp then True
                 else if w2 = Next bp then False
                 else if FindEmpty ?b2 = [] then True
                 else safeOpp bp ?b2 (FindEmpty ?b2) ss"
        by simp_all
      have b2: "0 \<le> outcome m bp ?b2 False (Next bp)"
      proof (cases m)
        case 0
        then show ?thesis by simp
      next
        case m: (Suc k)
        have "\<forall>c \<in> set (FindEmpty ?b2). 0 \<le> outcome k bp (setCell ?b2 c (Next bp)) True bp"
          if w2: "Conditions_FindWinner standardConditions ?b2 = Inr w2" "w2 \<noteq> bp" "w2 \<noteq> Next bp"
            "FindEmpty ?b2 \<noteq> []" for w2
        proof -
          from s2 w2 have "safeOpp bp ?b2 (FindEmpty ?b2) ss" by simp
          with "1.IH" [OF fw 4(1) 4(2) 4(3) w2] bp show ?thesis by blast
        qed
        moreover have "Conditions_FindWinner standardConditions ?b2 \<noteq> Inr (Next bp) \<or> Next bp = bp"
          using s2 by (auto split: sum.splits if_splits)
        ultimately show ?thesis unfolding m using bp by (intro outcome_opp_nonneg) blast+
      qed
      have "outcome m bp ?b2 False (Next bp)
              \<le> bestValue True (map (\<lambda>c. outcome m bp (setCell b c bp) False (Next bp)) ?cands)"
        by (rule bestValue_max_ge_map [OF nth_mem [OF il]])
      with b2 fw 4 Suc show ?thesis by simp
    qed
  qed
next
  case (2 bp b)
  show ?case by simp
next
  case (3 bp b c cs s ss)
  then show ?case by simp
next
  case (4 bp b s ss)
  then show ?case by simp
next
  case (5 bp b c cs)
  then show ?case by simp
qed

section \<open>The minimax bot moving second\<close>

lemma bestValue_min_le_map:
  "x \<in> set xs \<Longrightarrow> bestValue False (map f xs) \<le> f x"
  by (simp add: bestValue_def)

lemma outcome_nonneg_not_lost:
  "0 \<le> outcome (Suc n) bp b mx pl \<Longrightarrow> Next bp \<noteq> bp \<Longrightarrow>
   Conditions_FindWinner standardConditions b \<noteq> Inr (Next bp)"
  by auto

lemma play_human:
  "play g t False = (g', st, pl, None) \<Longrightarrow> bot g = Some bt \<Longrightarrow> Player t \<noteq> bot_Player bt"
  by (auto simp: play_def validateTurn_def split: option.splits if_splits)

lemma botGame_square:
  assumes "botGame bp g"
  shows "square 3 (board g)" and "length (FindEmpty (board g)) + length (turns g) = 9"
proof -
  from assms have "wf_game g" "size_g g = 3" "consistent g"
    by (simp_all add: botGame_def Inv_def)
  then show sq: "square 3 (board g)" by (simp add: wf_game_def)
  from FindEmpty_plus_occupied [OF sq] \<open>consistent g\<close>
  show "length (FindEmpty (board g)) + length (turns g) = 9" by (simp add: consistent_def)
qed

text \<open>A move that is accepted on a board without a winner, by either player.\<close>

lemma move_step:
  assumes bp: "IsValid bp" and G: "botGame bp g" and aw: "state g = StateAwaitingTurn"
    and p: "play g t a = (g', st, pl, None)"
    and safe: "0 \<le> outcome (length (FindEmpty (board g))) bp
                      (setCell (board g) (Cell t) (Player t)) (Player t \<noteq> bp) (Next (Player t))"
  shows "botGame bp g'"
proof -
  let ?b = "board g" and ?c = "Cell t" and ?p = "Player t"
  let ?b' = "setCell ?b ?c ?p"
  from G have own: "ownRows (gboard g)" by (simp add: botGame_def del: outcome.simps)
  from play_cases [OF p own] have acc: "Row ?c < size_g g" "Column ?c < size_g g" "IsValid ?p"
    "?p = player g" "getCell ?b ?c = 0" "board g' = ?b'" "turns g' = turns g @ [t]"
    "size_g g' = size_g g" "maxTurns g' = maxTurns g" "conditions g' = conditions g"
    "bot g' = bot g"
    and res: "if Conditions_IsWinningTurn (conditions g) (board g') t
             then state g' = StateWon \<and> player g' = Player t
           else if int (length (turns g')) \<ge> maxTurns g
             then state g' = StateDraw \<and> player g' = 0
           else state g' = StateAwaitingTurn \<and> player g' = Next (Player t)"
    by blast+
  from G have g: "size_g g = 3" "maxTurns g = 9" "conditions g = standardConditions"
    "bot g = Some (ImpossibleBot bp)" "validBoard ?b" "Inv g"
    by (simp_all add: botGame_def del: outcome.simps)
  from G aw have fw: "Conditions_FindWinner standardConditions ?b = Inr 0"
    and pg: "player g = bp \<or> player g = Next bp"
    by (simp_all add: botGame_def del: outcome.simps)
  note sq = botGame_square(1) [OF G]
  have rc: "Row ?c < 3" "Column ?c < 3" using acc(1,2) g(1) by simp_all
  then have urc: "unat (Row ?c) < 3" "unat (Column ?c) < 3" by (simp_all add: word_less_nat_alt)
  have mem: "?c \<in> set (FindEmpty ?b)"
    using FindEmpty_square_iff [OF sq, of ?c] urc acc(5) by simp
  note cb = child_board [OF sq g(5) acc(3) mem]
  have inv': "Inv g'" using g(6) own p by (rule play_Inv)
  have own': "ownRows (gboard g')" using play_ownRows [OF p] own by simp
  have t: "t = \<lparr>Cell = ?c, Player = ?p\<rparr>" by simp
  have ws: "Conditions_FindWinner standardConditions ?b' =
              Inr (if Conditions_IsWinningTurn standardConditions ?b' t then ?p else 0)"
    using win_step [OF sq g(5) fw rc acc(5) acc(3)] t by simp
  have nx: "Next bp \<noteq> bp" "Next (Next bp) = bp" using bp by (simp_all add: IsValid_Next Next_Next)
  have safe': "0 \<le> outcome (Suc (length (FindEmpty ?b'))) bp ?b' (?p \<noteq> bp) (Next ?p)"
    using safe cb(3) by simp
  have notlost: "Conditions_IsWinningTurn standardConditions ?b' t \<Longrightarrow> ?p = bp"
  proof (rule ccontr)
    assume w: "Conditions_IsWinningTurn standardConditions ?b' t" and "?p \<noteq> bp"
    with pg acc(4) have "?p = Next bp" by simp
    with ws w have "Conditions_FindWinner standardConditions ?b' = Inr (Next bp)" by simp
    with outcome_nonneg_not_lost [OF safe' nx(1)] show False by simp
  qed
  have base: "size_g g' = 3" "maxTurns g' = 9" "conditions g' = standardConditions"
    "bot g' = Some (ImpossibleBot bp)" "validBoard (board g')"
    using acc g cb(2) by simp_all
  show ?thesis
  proof (cases "Conditions_IsWinningTurn standardConditions ?b' t")
    case True
    with res acc(6) g(3) notlost have "state g' = StateWon" "player g' = bp" by simp_all
    with inv' own' base show ?thesis by (simp add: botGame_def)
  next
    case nw: False
    with ws have fw': "Conditions_FindWinner standardConditions (board g') = Inr 0"
      using acc(6) by simp
    show ?thesis
    proof (cases "int (length (turns g')) \<ge> maxTurns g")
      case True
      with res nw acc(6) g(3) have "state g' = StateDraw" by simp
      with inv' own' base show ?thesis by (simp add: botGame_def)
    next
      case False
      with res nw acc(6) g(3) have s: "state g' = StateAwaitingTurn" "player g' = Next ?p" by simp_all
      from False g(2) have l: "length (turns g') < 9" by simp
      have pg': "player g' = bp \<or> player g' = Next bp"
        using s(2) pg acc(4) nx by auto
      have mx: "(Next ?p = bp) = (?p \<noteq> bp)"
        using pg acc(4) nx by auto
      from safe' have "0 \<le> outcome (Suc (length (FindEmpty (board g')))) bp (board g')
                           (player g' = bp) (player g')"
        unfolding acc(6) s(2) mx .
      with inv' own' base s fw' l pg' show ?thesis by (simp add: botGame_def)
    qed
  qed
qed

lemma Play_botGame:
  assumes bp: "IsValid bp" and G: "botGame bp g" and p: "Play g t = (g', st, pl, err)"
  shows "botGame bp g'"
proof (cases err)
  case (Some e)
  from G have own: "ownRows (gboard g)" by (simp add: botGame_def del: outcome.simps)
  from Some p play_cases [of g t False g' st pl err, OF _ own] G show ?thesis
    by (auto simp: Play_def)
next
  case None
  from G have own: "ownRows (gboard g)" by (simp add: botGame_def del: outcome.simps)
  from None p have p': "play g t False = (g', st, pl, None)" by (simp add: Play_def)
  from play_cases [OF p' own] have aw: "state g = StateAwaitingTurn" and on: "Player t = player g"
    and rc: "Row (Cell t) < size_g g" "Column (Cell t) < size_g g"
    and e: "getCell (board g) (Cell t) = 0" by blast+
  from G have g: "size_g g = 3" "bot g = Some (ImpossibleBot bp)" "validBoard (board g)"
    by (simp_all add: botGame_def del: outcome.simps)
  from G aw have fw: "Conditions_FindWinner standardConditions (board g) = Inr 0"
    and pg: "player g = bp \<or> player g = Next bp"
    and out: "0 \<le> outcome (Suc (length (FindEmpty (board g)))) bp (board g) (player g = bp) (player g)"
    by (simp_all add: botGame_def del: outcome.simps)
  from play_human [OF p' g(2)] have nb: "Player t \<noteq> bp" by simp
  with on pg have opp: "player g = Next bp" "Player t = Next bp" by simp_all
  note sq = botGame_square(1) [OF G]
  have "unat (Row (Cell t)) < 3" "unat (Column (Cell t)) < 3"
    using rc g(1) by (simp_all add: word_less_nat_alt)
  then have mem: "Cell t \<in> set (FindEmpty (board g))"
    using FindEmpty_square_iff [OF sq, of "Cell t"] e by simp
  then have ne: "FindEmpty (board g) \<noteq> []" by auto
  have z: "(0 :: player) \<noteq> bp" "0 \<noteq> Next bp"
    using bp IsValid_Next [OF bp] by (auto dest: IsValid_nonzero)
  have nx: "Next bp \<noteq> bp" "Next (Next bp) = bp" using bp by (simp_all add: IsValid_Next Next_Next)
  let ?f = "\<lambda>c. outcome (length (FindEmpty (board g))) bp (setCell (board g) c (Next bp)) True bp"
  from out opp nx fw z ne have "0 \<le> bestValue False (map ?f (FindEmpty (board g)))"
    by simp
  also have "\<dots> \<le> ?f (Cell t)" using mem by (rule bestValue_min_le_map)
  finally have "0 \<le> outcome (length (FindEmpty (board g))) bp
                      (setCell (board g) (Cell t) (Player t)) (Player t \<noteq> bp) (Next (Player t))"
    using opp nx by simp
  with bp G aw p' show ?thesis by (rule move_step)
qed

lemma handle_fields:
  "conditions (handle g) = conditions g" "maxTurns (handle g) = maxTurns g"
  "turns (handle g) = turns g"
  by (simp_all add: handle_def)

lemma AllowBotTurn_botGame:
  assumes bp: "IsValid bp" and G: "botGame bp g"
  shows "\<exists>g' st pl err. AllowBotTurn g r = Some (g', st, pl, err) \<and> botGame bp g'"
proof (cases "IsBotTurn g")
  case False
  with G show ?thesis by (simp add: AllowBotTurn_def)
next
  case True
  from G have g: "size_g g = 3" "maxTurns g = 9" "conditions g = standardConditions"
    "bot g = Some (ImpossibleBot bp)" "validBoard (board g)"
    by (simp_all add: botGame_def del: outcome.simps)
  from True g(4) have aw: "state g = StateAwaitingTurn" and pg: "player g = bp"
    by (simp_all add: IsBotTurn_def)
  from G aw have fw: "Conditions_FindWinner standardConditions (board g) = Inr 0"
    and l: "length (turns g) < 9"
    and out: "0 \<le> outcome (Suc (length (FindEmpty (board g)))) bp (board g) (player g = bp) (player g)"
    by (simp_all add: botGame_def del: outcome.simps)
  note sq = botGame_square(1) [OF G]
  from botGame_square(2) [OF G] l have ne: "FindEmpty (board g) \<noteq> []" by auto
  let ?h = "handle g"
  have h: "conditions ?h = standardConditions" "maxTurns ?h = 9"
    using g by (simp_all add: handle_fields)
  from minimax_choice [OF h bp sq g(5) bp fw ne, of "fst (LastTurn ?h)" True]
  obtain r where r: "minimax (Suc (length (FindEmpty (board g)))) bp (board g) ?h
                       (fst (LastTurn ?h)) True bp 0 = Some (Inr r)"
    "ch_cell r \<in> set (FindEmpty (board g))"
    "sgn (ch_value r) = outcome (Suc (length (FindEmpty (board g)))) bp (board g) True bp"
    "sgn (ch_value r) = outcome (length (FindEmpty (board g))) bp
                          (setCell (board g) (ch_cell r) bp) False (Next bp)"
    by auto
  let ?c = "ch_cell r"
  let ?t = "\<lparr>Cell = ?c, Player = player g\<rparr>"
  have turn: "bot_Turn (the (bot g)) (board g) ?h r' = Some (Inr ?c)" for r'
    using g(4) r(1) by (simp add: impossibleBot_Turn_def)
  from r(2) have inb: "unat (Row ?c) < 3" "unat (Column ?c) < 3" "getCell (board g) ?c = 0"
    using FindEmpty_square_iff [OF sq, of ?c] by simp_all
  then have rc: "Row ?c < size_g g" "Column ?c < size_g g"
    using g(1) by (simp_all add: word_less_nat_alt)
  have vb: "validateBounds g ?c = None" using rc by (simp add: validateBounds_def not_le)
  have vt: "validateTurn g ?t True = None"
    using aw bp pg inb(3) by (simp add: validateTurn_def)
  obtain g' st pl err where p: "play g ?t True = (g', st, pl, err)" by (metis prod_cases4)
  with vb vt have err: "err = None" by (simp add: play_def Let_def)
  from out pg r(3) have "0 \<le> sgn (ch_value r)" by simp
  with r(4) have "0 \<le> outcome (length (FindEmpty (board g))) bp
                      (setCell (board g) (Cell ?t) (Player ?t)) (Player ?t \<noteq> bp) (Next (Player ?t))"
    using pg by simp
  with bp G aw p [unfolded err] have "botGame bp g'" by (rule move_step)
  moreover have "AllowBotTurn g r' = Some (g', state g', player g', None)" for r'
    using True turn [of r'] p err by (simp add: AllowBotTurn_def)
  ultimately show ?thesis by blast
qed

lemma perform_botGame:
  assumes "IsValid bp" and "botGame bp g"
  shows "\<exists>g'. perform g c = Some g' \<and> botGame bp g'"
proof (cases c)
  case (CallPlay t)
  obtain g' st pl err where p: "Play g t = (g', st, pl, err)" by (metis prod_cases4)
  with Play_botGame [OF assms p] CallPlay show ?thesis by simp
next
  case (CallAllowBotTurn r)
  with AllowBotTurn_botGame [OF assms, of r] show ?thesis by auto
qed

lemma performAll_botGame:
  assumes "IsValid bp"
  shows "botGame bp g \<Longrightarrow> \<exists>g'. performAll g cs = Some g' \<and> botGame bp g'"
proof (induction cs arbitrary: g)
  case Nil
  then show ?case by simp
next
  case (Cons c cs)
  from perform_botGame [OF assms Cons.prems, of c] obtain g1 where
    g1: "perform g c = Some g1" "botGame bp g1" by blast
  from Cons.IH [OF g1(2)] g1(1) show ?case by simp
qed

lemma strategy_safe_for_one:
  "safeOpp 1 [[0, 0, 0], [0, 0, 0], [0, 0, 0]] (FindEmpty [[0, 0, 0], [0, 0, 0], [0, 0, 0]])
     secondPlayerStrategy"
  by code_simp

lemma strategy_safe_for_two:
  "safeOpp 2 [[0, 0, 0], [0, 0, 0], [0, 0, 0]] (FindEmpty [[0, 0, 0], [0, 0, 0], [0, 0, 0]])
     secondPlayerStrategy"
  by code_simp

lemma empty_board_facts:
  "Conditions_FindWinner standardConditions [[0, 0, 0], [0, 0, 0], [0, 0, 0]] = Inr 0"
  "length (FindEmpty [[0, 0, 0], [0, 0, 0], [0, 0, 0]]) = 9"
  by code_simp+

lemma empty_board_outcome:
  assumes bp: "IsValid bp"
  shows "0 \<le> outcome (Suc 9) bp [[0, 0, 0], [0, 0, 0], [0, 0, 0]] False (Next bp)"
proof -
  let ?E = "[[0, 0, 0], [0, 0, 0], [0, 0, 0]] :: board"
  from bp have "bp = 1 \<or> bp = 2" by (simp add: IsValid_def PlayerOne_def PlayerTwo_def)
  then have "safeOpp bp ?E (FindEmpty ?E) secondPlayerStrategy"
    using strategy_safe_for_one strategy_safe_for_two by auto
  from safe_sound(2) [OF bp this]
  have kids: "\<forall>c \<in> set (FindEmpty ?E). 0 \<le> outcome 9 bp (setCell ?E c (Next bp)) True bp" .
  have "Next bp \<noteq> 0" using IsValid_Next [OF bp] by (auto dest: IsValid_nonzero)
  then have nl: "Conditions_FindWinner standardConditions ?E \<noteq> Inr (Next bp) \<or> Next bp = bp"
    by (simp add: empty_board_facts(1))
  from bp _ nl show ?thesis by (rule outcome_opp_nonneg) (use kids in blast)
qed

lemma empty_square3:
  assumes "square 3 b" and "occupiedCount b = 0"
  shows "b = [[0, 0, 0], [0, 0, 0], [0, 0, 0]]"
proof -
  from assms(1) obtain a1 a2 a3 b1 b2 b3 c1 c2 c3 where
    b: "b = [[a1, a2, a3], [b1, b2, b3], [c1, c2, c3]]" by (rule square3_cases)
  from assms(2) have "filter (\<lambda>p. p \<noteq> 0) [a1, a2, a3, b1, b2, b3, c1, c2, c3] = []"
    by (simp add: occupiedCount_def b del: filter.simps)
  then have "\<forall>p \<in> set [a1, a2, a3, b1, b2, b3, c1, c2, c3]. p = 0"
    unfolding filter_empty_conv by simp
  with b show ?thesis by simp
qed

lemma start_botGame:
  assumes s: "Start opts = Inr g0" and bp: "IsValid bp"
    and bt: "bot g0 = Some (ImpossibleBot bp)" and sz: "size_g g0 = 3"
    and cs: "conditions g0 = standardConditions" and ts: "turns g0 = []"
    and st: "state g0 = StateAwaitingTurn" and pl: "player g0 = Next bp"
    and own: "ownRows (gboard g0)"
  shows "botGame bp g0"
proof -
  from Start_Inv [OF s] have inv: "Inv g0" .
  then have wf: "wf_game g0" and co: "consistent g0" by (simp_all add: Inv_def)
  from wf sz have sq: "square 3 (board g0)" and mt: "maxTurns g0 = 9"
    by (simp_all add: wf_game_def)
  from co ts have "occupiedCount (board g0) = 0" by (simp add: consistent_def)
  with sq have b: "board g0 = [[0, 0, 0], [0, 0, 0], [0, 0, 0]]" by (rule empty_square3)
  have vb: "validBoard (board g0)" by (simp add: b validBoard_def IsValidOrZero_def)
  have nx: "Next bp \<noteq> bp" using bp by (simp add: IsValid_Next)
  have "0 \<le> outcome (Suc (length (FindEmpty (board g0)))) bp (board g0) (player g0 = bp) (player g0)"
    unfolding b empty_board_facts(2) pl using empty_board_outcome [OF bp] nx by simp
  with inv own sz mt cs bt vb st ts pl show ?thesis
    by (simp add: botGame_def b empty_board_facts(1) del: outcome.simps)
qed

section \<open>Games started without a preset board\<close>

lemma withBot_blank: "withBot bt name g = Inr g' \<Longrightarrow> blank g \<Longrightarrow> blank g'"
  by (auto simp: withBot_def blank_def split: if_splits)

lemma applyWithSize_blank: "applyWithSize sz g = Inr g' \<Longrightarrow> blank g \<Longrightarrow> blank g'"
  by (auto simp: applyWithSize_def blank_def split: if_splits)

lemma applyWithRandomSize_blank: "applyWithRandomSize r g = Inr g' \<Longrightarrow> blank g \<Longrightarrow> blank g'"
  by (auto simp: applyWithRandomSize_def blank_def Let_def split: if_splits)

lemma applyWithStarterPlayer_blank:
  "applyWithStarterPlayer p g = Inr g' \<Longrightarrow> blank g \<Longrightarrow> blank g'"
  by (auto simp: applyWithStarterPlayer_def blank_def split: if_splits)

lemma blank_conditions_update [simp]: "blank (g\<lparr>conditions := x\<rparr>) = blank g"
  by (simp add: blank_def)

lemma blank_player_update [simp]: "blank (g\<lparr>player := x\<rparr>) = blank g"
  by (simp add: blank_def)

lemma apply_blank:
  "apply_option opt g = Inr g' \<Longrightarrow> noPreset opt \<Longrightarrow> blank g \<Longrightarrow> blank g'"
  "apply_pack opts g = Inr g' \<Longrightarrow> noPresets opts \<Longrightarrow> blank g \<Longrightarrow> blank g'"
proof (induction opt g and opts g arbitrary: g' and g' rule: apply_option_apply_pack.induct)
  case (1 bv g)
  then show ?case by simp
next
  case (2 bt g)
  then show ?case by (simp add: withBot_blank)
next
  case (3 c g)
  then show ?case by auto
next
  case (4 cs g)
  then show ?case by auto
next
  case (5 p g)
  then show ?case by (simp add: withBot_blank)
next
  case (6 p g)
  then show ?case by (simp add: withBot_blank)
next
  case (7 p g)
  then show ?case by (simp add: withBot_blank)
next
  case (8 p g)
  then show ?case by (simp add: withBot_blank)
next
  case (9 pack g)
  then show ?case by simp
next
  case (10 r g)
  then show ?case by (simp add: applyWithRandomSize_blank)
next
  case (11 r g)
  then show ?case by (auto split: if_splits)
next
  case (12 sz g)
  then show ?case by (simp add: applyWithSize_blank)
next
  case (13 p g)
  then show ?case by (simp add: applyWithStarterPlayer_blank)
next
  case (14 g)
  then show ?case by simp
next
  case (15 opt opts g)
  from "15.prems"(1) obtain g1 where g1: "apply_option opt g = Inr g1" "apply_pack opts g1 = Inr g'"
    by (auto split: sum.splits)
  from "15.prems"(2) have n: "noPreset opt" "noPresets opts" by simp_all
  from "15.IH"(1) [OF g1(1) n(1) "15.prems"(3)] have "blank g1" .
  with "15.IH"(2) [OF g1(1) g1(2) n(2)] show ?case .
qed

lemma Start_noPresets:
  assumes "Start opts = Inr g" and "noPresets opts"
  shows "gboard g = newBoard (size_g g) \<and> turns g = [] \<and> state g = StateAwaitingTurn"
proof -
  from assms(1) obtain g1 where g1: "apply_pack opts draft = Inr g1"
    by (auto simp: Start_def split: sum.splits)
  have "blank draft" by (simp add: draft_def blank_def)
  with apply_blank(2) [OF g1 assms(2)]
  have d: "gboard g1 = nilBoard" "turns g1 = []" "state g1 = StateAwaitingTurn"
    by (simp_all add: blank_def)
  then have "board g1 = []" by (simp add: board_def)
  with assms(1) g1 d show ?thesis
    by (auto simp: Start_def Let_def split: if_splits)
qed

text \<open>
  Claim C9, as stated, fails.  A size-3 game whose impossible bot plays the second
  player can be lost to the first player's first move: under a winning condition that
  the caller has added (here: the player on the top left cell has won), and from a
  preset board on which the first player already holds two cells of a line (here the
  top left cell and the centre, the second player holding the rest of the top row).  In
  both games \<^verbatim>\<open>Start\<close> succeeds with \<^verbatim>\<open>PlayerOne\<close> on move and the bot for \<^verbatim>\<open>PlayerTwo\<close>,
  and one accepted turn of \<^verbatim>\<open>PlayerOne\<close> ends the game as won by \<^verbatim>\<open>PlayerOne\<close>.
\<close>

theorem C9_counterexample:
  "\<not> isl (Start [WithCondition cornerCondition, WithImpossibleBot PlayerTwo]) \<and>
   size_g (projr (Start [WithCondition cornerCondition, WithImpossibleBot PlayerTwo])) = 3 \<and>
   hasImpossibleBot (projr (Start [WithCondition cornerCondition, WithImpossibleBot PlayerTwo]))
     PlayerTwo \<and>
   player (projr (Start [WithCondition cornerCondition, WithImpossibleBot PlayerTwo])) = PlayerOne \<and>
   map_option (\<lambda>g. (state g, player g))
      (performAll (projr (Start [WithCondition cornerCondition, WithImpossibleBot PlayerTwo]))
         [CallPlay \<lparr>Cell = \<lparr>Column = 0, Row = 0\<rparr>, Player = PlayerOne\<rparr>])
     = Some (StateWon, PlayerOne) \<and>
   \<not> isl (Start [WithBoard (alloc [[1, 2, 2], [0, 1, 0], [0, 0, 0]]),
                 WithImpossibleBot PlayerTwo]) \<and>
   size_g (projr (Start [WithBoard (alloc [[1, 2, 2], [0, 1, 0], [0, 0, 0]]),
                         WithImpossibleBot PlayerTwo])) = 3 \<and>
   hasImpossibleBot (projr (Start [WithBoard (alloc [[1, 2, 2], [0, 1, 0], [0, 0, 0]]),
                                   WithImpossibleBot PlayerTwo])) PlayerTwo \<and>
   player (projr (Start [WithBoard (alloc [[1, 2, 2], [0, 1, 0], [0, 0, 0]]),
                         WithImpossibleBot PlayerTwo])) = PlayerOne \<and>
   map_option (\<lambda>g. (state g, player g))
      (performAll (projr (Start [WithBoard (alloc [[1, 2, 2], [0, 1, 0], [0, 0, 0]]),
                                 WithImpossibleBot PlayerTwo]))
         [CallPlay \<lparr>Cell = \<lparr>Column = 2, Row = 2\<rparr>, Player = PlayerOne\<rparr>])
     = Some (StateWon, PlayerOne)"
  by code_simp

text \<open>
  Claim C9, amended.  Take a size-3 game with the standard winning conditions and no
  others, returned by \<^verbatim>\<open>Start\<close> for options without a preset board, whose impossible
  bot plays \<open>bp\<close> while the other player is on move.  Whatever sequence of \<^verbatim>\<open>Play\<close>
  and \<^verbatim>\<open>AllowBotTurn\<close> calls is made (legal moves of the opponent are applied, every
  other submission is rejected, and the bot moves by delegation), every call returns,
  and the game never is in \<^verbatim>\<open>StateWon\<close> with the opponent as the winner.
\<close>

theorem C9_minimax_second_never_loses:
  assumes "Start opts = Inr g0" and "noPresets opts" and "IsValid bp"
    and "bot g0 = Some (ImpossibleBot bp)" and "size_g g0 = 3"
    and "conditions g0 = standardConditions" and "player g0 = Next bp"
  shows "\<exists>g. performAll g0 calls = Some g \<and> \<not> (state g = StateWon \<and> player g = Next bp)"
proof -
  from Start_noPresets [OF assms(1,2)]
  have n: "gboard g0 = newBoard (size_g g0)" "turns g0 = []" "state g0 = StateAwaitingTurn"
    by simp_all
  then have own: "ownRows (gboard g0)" by simp
  have "botGame bp g0"
    using assms(1,3,4,5,6) n(2,3) assms(7) own by (rule start_botGame)
  from performAll_botGame [OF assms(3) this, of calls]
  obtain g where g: "performAll g0 calls = Some g" "botGame bp g" by blast
  have "Next bp \<noteq> bp" using assms(3) by (simp add: IsValid_Next)
  with g(2) have "\<not> (state g = StateWon \<and> player g = Next bp)"
    by (auto simp: botGame_def simp del: outcome.simps)
  with g(1) show ?thesis by blast
qed

theorem C9_minimax_second_never_loses_witness:
  "Start [WithImpossibleBot PlayerTwo] =
     Inr (freshGame\<lparr>bot := Some (ImpossibleBot PlayerTwo)\<rparr>) \<and>
   noPresets [WithImpossibleBot PlayerTwo] \<and>
   (\<exists>g. performAll (freshGame\<lparr>bot := Some (ImpossibleBot PlayerTwo)\<rparr>)
           [CallPlay \<lparr>Cell = \<lparr>Column = 1, Row = 1\<rparr>, Player = PlayerOne\<rparr>, CallAllowBotTurn 0,
            CallPlay \<lparr>Cell = \<lparr>Column = 0, Row = 0\<rparr>, Player = PlayerOne\<rparr>, CallAllowBotTurn 0]
           = Some g \<and>
        \<not> (state g = StateWon \<and> player g = PlayerOne))"
proof -
  let ?g0 = "freshGame\<lparr>bot := Some (ImpossibleBot PlayerTwo)\<rparr>"
  have s: "Start [WithImpossibleBot PlayerTwo] = Inr ?g0"
    by (simp add: Start_def draft_def freshGame_def withBot_def NewImpossibleBot_def
          MinSize_def IsValid_def PlayerOne_def PlayerTwo_def nilBoard_def deref_def)
  have np: "noPresets [WithImpossibleBot PlayerTwo]" by simp
  have h: "IsValid PlayerTwo" "bot ?g0 = Some (ImpossibleBot PlayerTwo)" "size_g ?g0 = 3"
    "conditions ?g0 = standardConditions" "player ?g0 = Next PlayerTwo"
    by (simp_all add: freshGame_def IsValid_def Next_def PlayerOne_def PlayerTwo_def)
  have n: "Next PlayerTwo = PlayerOne" by (simp add: Next_def PlayerOne_def PlayerTwo_def)
  from C9_minimax_second_never_loses [OF s np h,
      of "[CallPlay \<lparr>Cell = \<lparr>Column = 1, Row = 1\<rparr>, Player = PlayerOne\<rparr>, CallAllowBotTurn 0,
           CallPlay \<lparr>Cell = \<lparr>Column = 0, Row = 0\<rparr>, Player = PlayerOne\<rparr>, CallAllowBotTurn 0]"]
  show ?thesis unfolding n using s np by blast
qed


end
